theory Spec2Isabelle
  imports Main "HOL-Library.Extended_Nat"
begin

unbundle bit_operations_syntax

section \<open>Python lists and grids\<close>

text \<open>
  A Python computation that raises (IndexError on a list access, ValueError on a negative
  shift count) or that never returns has the value \<open>None\<close>; a normal return is \<open>Some\<close>.
\<close>

text \<open>\<^verbatim>\<open>xs[i]\<close>: an index below zero counts from the end of the list.\<close>

definition py_index :: "'a list \<Rightarrow> int \<Rightarrow> nat option" where
  "py_index xs i =
     (if 0 \<le> i then (if i < int (length xs) then Some (nat i) else None)
      else (if - int (length xs) \<le> i then Some (nat (int (length xs) + i)) else None))"

definition py_get :: "'a list \<Rightarrow> int \<Rightarrow> 'a option" where
  "py_get xs i = (case py_index xs i of None \<Rightarrow> None | Some k \<Rightarrow> Some (xs ! k))"

definition py_set :: "'a list \<Rightarrow> int \<Rightarrow> 'a \<Rightarrow> 'a list option" where
  "py_set xs i v = (case py_index xs i of None \<Rightarrow> None | Some k \<Rightarrow> Some (xs[k := v]))"

text \<open>\<^verbatim>\<open>range(n)\<close>, empty when \<open>n \<le> 0\<close>.\<close>

definition range_py :: "int \<Rightarrow> int list" where
  "range_py n = [0..n - 1]"

text \<open>A \<^verbatim>\<open>for\<close> loop over a list whose body updates a state and may raise.\<close>

fun for_each :: "'a list \<Rightarrow> ('a \<Rightarrow> 's \<Rightarrow> 's option) \<Rightarrow> 's \<Rightarrow> 's option" where
  "for_each [] body s = Some s"
| "for_each (a # as) body s =
     (case body a s of None \<Rightarrow> None | Some s' \<Rightarrow> for_each as body s')"

type_synonym 'a grid = "'a list list"

text \<open>\<^verbatim>\<open>[[v for _ in range(h)] for _ in range(w)]\<close>\<close>

definition new_grid :: "int \<Rightarrow> int \<Rightarrow> 'a \<Rightarrow> 'a grid" where
  "new_grid w h v = replicate (nat w) (replicate (nat h) v)"

text \<open>\<^verbatim>\<open>g[a][b]\<close> and \<^verbatim>\<open>g[a][b] = v\<close>; the rows are distinct list objects.\<close>

definition grid_get :: "'a grid \<Rightarrow> int \<Rightarrow> int \<Rightarrow> 'a option" where
  "grid_get g a b = (case py_get g a of None \<Rightarrow> None | Some row \<Rightarrow> py_get row b)"

definition grid_set :: "'a grid \<Rightarrow> int \<Rightarrow> int \<Rightarrow> 'a \<Rightarrow> 'a grid option" where
  "grid_set g a b v =
     (case py_get g a of None \<Rightarrow> None
      | Some row \<Rightarrow> (case py_set row b v of None \<Rightarrow> None | Some row' \<Rightarrow> py_set g a row'))"

text \<open>\<^verbatim>\<open>g[a][b] |= m\<close>\<close>

definition grid_or :: "int grid \<Rightarrow> int \<Rightarrow> int \<Rightarrow> int \<Rightarrow> int grid option" where
  "grid_or g a b m =
     (case grid_get g a b of None \<Rightarrow> None | Some w \<Rightarrow> grid_set g a b (w OR m))"

section \<open>The controller state\<close>

datatype phase = Explore | SpeedRun

text \<open>
  The fields of \<^verbatim>\<open>MicromouseFloodfill\<close>. \<open>pos_x\<close> and \<open>pos_y\<close> are \<^verbatim>\<open>self.x\<close> and
  \<^verbatim>\<open>self.y\<close>. A flood value is \<^verbatim>\<open>float('inf')\<close> (\<open>\<infinity>\<close>) or one of the integers the code
  stores, which are \<open>0\<close> and \<open>current_value + 1\<close>.
\<close>

record mouse =
  width :: int
  height :: int
  pos_x :: int
  pos_y :: int
  direction :: int
  walls :: "int grid"
  flood_values :: "enat grid"
  goals :: "(int \<times> int) list"
  phase :: phase
  visited :: "(int \<times> int) set"

text \<open>The actuator commands sent to the simulator; display commands and logging are left out.\<close>

datatype cmd = TurnRight | TurnLeft | MoveForward | AckReset

section \<open>Maze model\<close>

text \<open>Lines 118-132 of the constructor; lines 339-349 of the reset handling are the same text.\<close>

definition center_goals :: "int \<Rightarrow> int \<Rightarrow> (int \<times> int) list" where
  "center_goals w h =
     (let center_x = w div 2; center_y = h div 2 in
      if w mod 2 = 0 \<and> h mod 2 = 0 then
        [(center_x - 1, center_y - 1), (center_x, center_y - 1),
         (center_x - 1, center_y), (center_x, center_y)]
      else if w mod 2 = 0 then [(center_x - 1, center_y), (center_x, center_y)]
      else if h mod 2 = 0 then [(center_x, center_y - 1), (center_x, center_y)]
      else [(center_x, center_y)])"

definition initialize_boundaries :: "int \<Rightarrow> int \<Rightarrow> int grid \<Rightarrow> int grid option" where
  "initialize_boundaries w h g =
     (case for_each (range_py w)
             (\<lambda>a g. case grid_or g a 0 4 of None \<Rightarrow> None
                    | Some g' \<Rightarrow> grid_or g' a (h - 1) 1) g of
        None \<Rightarrow> None
      | Some g1 \<Rightarrow>
          for_each (range_py h)
            (\<lambda>b g. case grid_or g 0 b 8 of None \<Rightarrow> None
                   | Some g' \<Rightarrow> grid_or g' (w - 1) b 2) g1)"

text \<open>\<^verbatim>\<open>1 << direction\<close> raises ValueError for a negative shift count.\<close>

definition get_direction_bit :: "int \<Rightarrow> int option" where
  "get_direction_bit d = (if d < 0 then None else Some (push_bit (nat d) 1))"

definition get_direction_offset :: "int \<Rightarrow> (int \<times> int) option" where
  "get_direction_offset d = py_get [(0, 1), (1, 0), (0, -1), (-1, 0)] d"

definition is_wall :: "mouse \<Rightarrow> int \<Rightarrow> int \<Rightarrow> int \<Rightarrow> bool option" where
  "is_wall s a b d =
     (if a < 0 \<or> a \<ge> width s \<or> b < 0 \<or> b \<ge> height s then Some True
      else case grid_get (walls s) a b of None \<Rightarrow> None
           | Some w \<Rightarrow> (case get_direction_bit d of None \<Rightarrow> None
                        | Some m \<Rightarrow> Some (w AND m \<noteq> 0)))"

definition set_wall :: "int \<Rightarrow> int \<Rightarrow> int \<Rightarrow> mouse \<Rightarrow> mouse option" where
  "set_wall a b d s =
     (if 0 \<le> a \<and> a < width s \<and> 0 \<le> b \<and> b < height s then
        case get_direction_bit d of None \<Rightarrow> None
        | Some m \<Rightarrow>
           (case grid_or (walls s) a b m of None \<Rightarrow> None
            | Some g \<Rightarrow>
               (case get_direction_offset d of None \<Rightarrow> None
                | Some (dx, dy) \<Rightarrow>
                   (let adj_x = a + dx; adj_y = b + dy in
                    if 0 \<le> adj_x \<and> adj_x < width s \<and> 0 \<le> adj_y \<and> adj_y < height s then
                      (case get_direction_bit ((d + 2) mod 4) of None \<Rightarrow> None
                       | Some m' \<Rightarrow>
                          (case grid_or g adj_x adj_y m' of None \<Rightarrow> None
                           | Some g' \<Rightarrow> Some (s\<lparr>walls := g'\<rparr>)))
                    else Some (s\<lparr>walls := g\<rparr>))))
      else Some s)"

text \<open>
  The constructor, after the two dimension queries have returned \<open>w\<close> and \<open>h\<close>.
\<close>

definition init :: "int \<Rightarrow> int \<Rightarrow> mouse option" where
  "init w h =
     (case initialize_boundaries w h (new_grid w h 0) of None \<Rightarrow> None
      | Some g \<Rightarrow>
          Some \<lparr>width = w, height = h, pos_x = 0, pos_y = 0, direction = 0, walls = g,
                flood_values = new_grid w h 0, goals = center_goals w h,
                phase = Explore, visited = {(0, 0)}\<rparr>)"

section \<open>Orientation\<close>

text \<open>
  The \<^verbatim>\<open>while\<close> loop of \<^verbatim>\<open>turn_to_direction\<close> on the heading and the commands sent so far.
  When the headings differ and \<open>diff\<close> is 0 (a target outside 0..3) no branch is taken and
  the loop repeats on the same state.
\<close>

partial_function (option) turn_loop :: "int \<Rightarrow> int \<Rightarrow> cmd list \<Rightarrow> (int \<times> cmd list) option" where
  "turn_loop target dir cs =
     (if dir \<noteq> target then
        (let diff = (target - dir) mod 4 in
         if diff = 1 then turn_loop target ((dir + 1) mod 4) (cs @ [TurnRight])
         else if diff = 3 then turn_loop target ((dir - 1) mod 4) (cs @ [TurnLeft])
         else if diff = 2 then turn_loop target ((dir + 2) mod 4) (cs @ [TurnRight, TurnRight])
         else turn_loop target dir cs)
      else Some (dir, cs))"

declare turn_loop.simps [code]

definition turn_to_direction :: "int \<Rightarrow> mouse \<Rightarrow> (cmd list \<times> mouse) option" where
  "turn_to_direction target s =
     (case turn_loop target (direction s) [] of None \<Rightarrow> None
      | Some (dir, cs) \<Rightarrow> Some (cs, s\<lparr>direction := dir\<rparr>))"

section \<open>Flood fill\<close>

text \<open>
  One direction of the inner \<^verbatim>\<open>for\<close> loop, for the dequeued cell \<open>(a, b)\<close> whose value
  \<open>cur\<close> was read when it was dequeued, on the flood values and the queue.
\<close>

definition relax ::
  "mouse \<Rightarrow> int \<Rightarrow> int \<Rightarrow> enat \<Rightarrow> int \<Rightarrow> enat grid \<times> (int \<times> int) list
     \<Rightarrow> (enat grid \<times> (int \<times> int) list) option" where
  "relax s a b cur d st =
     (case st of (fv, q) \<Rightarrow>
        (case is_wall s a b d of None \<Rightarrow> None
         | Some True \<Rightarrow> Some (fv, q)
         | Some False \<Rightarrow>
            (case get_direction_offset d of None \<Rightarrow> None
             | Some (dx, dy) \<Rightarrow>
                (let next_x = a + dx; next_y = b + dy in
                 if 0 \<le> next_x \<and> next_x < width s \<and> 0 \<le> next_y \<and> next_y < height s then
                   (case grid_get fv next_x next_y of None \<Rightarrow> None
                    | Some v \<Rightarrow>
                       if v > cur + 1 then
                         (case grid_set fv next_x next_y (cur + 1) of None \<Rightarrow> None
                          | Some fv' \<Rightarrow> Some (fv', q @ [(next_x, next_y)]))
                       else Some (fv, q))
                 else Some (fv, q)))))"

definition gsum :: "('a \<Rightarrow> nat) \<Rightarrow> 'a grid \<Rightarrow> nat" where
  "gsum f g = sum_list (map (\<lambda>row. sum_list (map f row)) g)"

definition n_inf :: "enat grid \<Rightarrow> nat" where
  "n_inf fv = gsum (\<lambda>v. if v = \<infinity> then 1 else 0) fv"

definition s_fin :: "enat grid \<Rightarrow> nat" where
  "s_fin fv = gsum (\<lambda>v. case v of enat n \<Rightarrow> n | \<infinity> \<Rightarrow> 0) fv"

definition bfs_rel :: "((mouse \<times> enat grid \<times> (int \<times> int) list) \<times> (mouse \<times> enat grid \<times> (int \<times> int) list)) set" where
  "bfs_rel = inv_image (less_than <*lex*> less_than <*lex*> less_than)
                (\<lambda>(s, fv, q). (n_inf fv, s_fin fv, length q))"

lemma sum_list_map_update:
  "k < length xs \<Longrightarrow> sum_list (map f (xs[k := x])) + f (xs ! k) = sum_list (map f xs) + (f x :: nat)"
  by (induction xs arbitrary: k) (auto split: nat.splits)

lemma py_index_less: "py_index xs i = Some k \<Longrightarrow> k < length xs"
  by (auto simp: py_index_def split: if_splits)

lemma py_index_nonneg: "0 \<le> i \<Longrightarrow> py_index xs i = (if i < int (length xs) then Some (nat i) else None)"
  by (simp add: py_index_def)

lemma grid_get_SomeD:
  "grid_get g a b = Some v \<Longrightarrow>
     \<exists>k l. py_index g a = Some k \<and> py_index (g ! k) b = Some l \<and> v = g ! k ! l"
  by (auto simp: grid_get_def py_get_def split: option.splits)

lemma grid_set_SomeD:
  "grid_set g a b v = Some g' \<Longrightarrow>
     \<exists>k l. py_index g a = Some k \<and> py_index (g ! k) b = Some l \<and> g' = g[k := (g ! k)[l := v]]"
  by (auto simp: grid_set_def py_get_def py_set_def split: option.splits)

lemma gsum_update:
  assumes "k < length g" "l < length (g ! k)"
  shows "gsum f (g[k := (g ! k)[l := v]]) + f (g ! k ! l) = gsum f g + f v"
proof -
  let ?r = "\<lambda>row. sum_list (map f row)"
  have "sum_list (map ?r (g[k := (g ! k)[l := v]])) + ?r (g ! k) = sum_list (map ?r g) + ?r ((g ! k)[l := v])"
    using assms(1) by (rule sum_list_map_update)
  moreover have "?r ((g ! k)[l := v]) + f (g ! k ! l) = ?r (g ! k) + f v"
    using assms(2) by (rule sum_list_map_update)
  ultimately show ?thesis by (simp add: gsum_def)
qed

lemma gsum_grid_set:
  assumes "grid_get g a b = Some v0" "grid_set g a b v = Some g'"
  shows "gsum f g' + f v0 = gsum f g + f v"
proof -
  from grid_get_SomeD[OF assms(1)] grid_set_SomeD[OF assms(2)]
  obtain k l where kl: "py_index g a = Some k" "py_index (g ! k) b = Some l"
      "v0 = g ! k ! l" "g' = g[k := (g ! k)[l := v]]"
    by auto
  show ?thesis unfolding kl(3,4)
    by (rule gsum_update) (use kl py_index_less in blast)+
qed

definition bfs_le :: "enat grid \<times> (int \<times> int) list \<Rightarrow> enat grid \<times> (int \<times> int) list \<Rightarrow> bool" where
  "bfs_le st' st = (st' = st \<or>
      ((n_inf (fst st'), s_fin (fst st')), (n_inf (fst st), s_fin (fst st))) \<in> less_than <*lex*> less_than)"

lemma bfs_le_refl: "bfs_le st st" by (simp add: bfs_le_def)

lemma bfs_le_trans: "bfs_le st2 st1 \<Longrightarrow> bfs_le st1 st0 \<Longrightarrow> bfs_le st2 st0"
  by (auto simp: bfs_le_def)

lemma relax_le: "relax s a b cur d st = Some st' \<Longrightarrow> bfs_le st' st"
proof -
  assume r: "relax s a b cur d st = Some st'"
  obtain fv q where st: "st = (fv, q)" by (cases st)
  show ?thesis
  proof (cases "st' = st")
    case True then show ?thesis by (simp add: bfs_le_def)
  next
    case False
    with r st obtain nx ny v fv' where
      g: "grid_get fv nx ny = Some v" and lt: "cur + 1 < v"
      and u: "grid_set fv nx ny (cur + 1) = Some fv'" and st': "st' = (fv', q @ [(nx, ny)])"
      by (auto simp: relax_def Let_def split: option.splits bool.splits if_splits prod.splits)
    obtain c where c: "cur = enat c" using lt by (cases cur) auto
    have i: "n_inf fv' + (if v = \<infinity> then 1 else 0) = n_inf fv"
      using gsum_grid_set[OF g u, of "\<lambda>v. if v = \<infinity> then 1 else 0"] c
      by (simp add: n_inf_def one_enat_def)
    have f: "s_fin fv' + (case v of enat n \<Rightarrow> n | \<infinity> \<Rightarrow> 0) = s_fin fv + (c + 1)"
      using gsum_grid_set[OF g u, of "\<lambda>v. case v of enat n \<Rightarrow> n | \<infinity> \<Rightarrow> 0"] c
      by (simp add: s_fin_def one_enat_def)
    show ?thesis
    proof (cases v)
      case (enat n)
      then have "c + 1 < n" using lt c by (simp add: one_enat_def)
      then show ?thesis using i f enat st st' by (auto simp: bfs_le_def)
    next
      case infinity
      then show ?thesis using i st st' by (auto simp: bfs_le_def)
    qed
  qed
qed

lemma for_each_le:
  "for_each ds (relax s a b cur) st = Some st' \<Longrightarrow> bfs_le st' st"
proof (induction ds arbitrary: st)
  case Nil then show ?case by (simp add: bfs_le_refl)
next
  case (Cons d ds)
  from Cons.prems obtain st1 where 1: "relax s a b cur d st = Some st1"
    and 2: "for_each ds (relax s a b cur) st1 = Some st'"
    by (auto split: option.splits)
  from Cons.IH[OF 2] relax_le[OF 1] show ?case by (rule bfs_le_trans)
qed

function bfs_loop :: "mouse \<Rightarrow> enat grid \<times> (int \<times> int) list \<Rightarrow> enat grid option" where
  "bfs_loop s (fv, []) = Some fv"
| "bfs_loop s (fv, (a, b) # q) =
     (case grid_get fv a b of None \<Rightarrow> None
      | Some current_value \<Rightarrow>
          (case for_each (range_py 4) (relax s a b current_value) (fv, q) of None \<Rightarrow> None
           | Some st \<Rightarrow> bfs_loop s st))"
  by pat_completeness auto
termination
proof (relation bfs_rel)
  show "wf bfs_rel" by (auto simp: bfs_rel_def)
next
  fix s fv a b q cur st
  assume "for_each (range_py 4) (relax s a b cur) (fv, q) = Some st"
  from for_each_le[OF this]
  show "((s, st), s, fv, (a, b) # q) \<in> bfs_rel"
    by (cases st) (auto simp: bfs_le_def bfs_rel_def)
qed

definition floodfill :: "mouse \<Rightarrow> mouse option" where
  "floodfill s =
     (case for_each (range_py (width s))
             (\<lambda>a. for_each (range_py (height s)) (\<lambda>b fv. grid_set fv a b \<infinity>))
             (flood_values s) of
        None \<Rightarrow> None
      | Some fv0 \<Rightarrow>
         (case for_each (goals s)
                 (\<lambda>(goal_x, goal_y) (fv, q).
                     case grid_set fv goal_x goal_y 0 of None \<Rightarrow> None
                     | Some fv' \<Rightarrow> Some (fv', q @ [(goal_x, goal_y)]))
                 (fv0, []) of
            None \<Rightarrow> None
          | Some st \<Rightarrow>
             (case bfs_loop s st of None \<Rightarrow> None
              | Some fv' \<Rightarrow> Some (s\<lparr>flood_values := fv'\<rparr>))))"

section \<open>Navigation\<close>

text \<open>The answers of the simulator to the queries of one pass of the main loop.\<close>

record sensors =
  was_reset :: bool
  wall_front :: bool
  wall_right :: bool
  wall_back :: bool
  wall_left :: bool

definition scan_walls :: "sensors \<Rightarrow> mouse \<Rightarrow> mouse option" where
  "scan_walls sens s =
     for_each (zip [0, 1, 2, 3] [wall_front sens, wall_right sens, wall_back sens, wall_left sens])
       (\<lambda>(i, has_wall) s.
           if has_wall then set_wall (pos_x s) (pos_y s) ((direction s + i) mod 4) s
           else Some s)
       s"

definition get_best_direction :: "mouse \<Rightarrow> int option option" where
  "get_best_direction s =
     (case grid_get (flood_values s) (pos_x s) (pos_y s) of None \<Rightarrow> None
      | Some current_value \<Rightarrow>
         (case for_each (range_py 4)
                 (\<lambda>d (best_direction, best_value).
                     case is_wall s (pos_x s) (pos_y s) d of None \<Rightarrow> None
                     | Some True \<Rightarrow> Some (best_direction, best_value)
                     | Some False \<Rightarrow>
                        (case get_direction_offset d of None \<Rightarrow> None
                         | Some (dx, dy) \<Rightarrow>
                            (let next_x = pos_x s + dx; next_y = pos_y s + dy in
                             if 0 \<le> next_x \<and> next_x < width s \<and> 0 \<le> next_y \<and> next_y < height s then
                               (case grid_get (flood_values s) next_x next_y of None \<Rightarrow> None
                                | Some next_value \<Rightarrow>
                                   if next_value < best_value then Some (Some d, next_value)
                                   else Some (best_direction, best_value))
                             else Some (best_direction, best_value))))
                 (None, \<infinity>) of
            None \<Rightarrow> None
          | Some (best_direction, best_value) \<Rightarrow> Some best_direction))"

definition move_forward :: "mouse \<Rightarrow> (cmd list \<times> mouse) option" where
  "move_forward s =
     (case get_direction_offset (direction s) of None \<Rightarrow> None
      | Some (dx, dy) \<Rightarrow>
          Some ([MoveForward],
                s\<lparr>pos_x := pos_x s + dx, pos_y := pos_y s + dy,
                  visited := insert (pos_x s + dx, pos_y s + dy) (visited s)\<rparr>))"

definition at_goal :: "mouse \<Rightarrow> bool" where
  "at_goal s = ((pos_x s, pos_y s) \<in> set (goals s))"

text \<open>
  \<^verbatim>\<open>should_explore_more\<close> compares \<^verbatim>\<open>len(self.visited)\<close> with the floating-point products
  \<^verbatim>\<open>(self.width * self.height) * 0.7\<close> and \<^verbatim>\<open>... * 0.9\<close>. The two comparisons are parameters
  here, applied to the number of visited cells and to \<open>width * height\<close>.
\<close>

record float_tests =
  above_70_percent :: "nat \<Rightarrow> int \<Rightarrow> bool"
  below_90_percent :: "nat \<Rightarrow> int \<Rightarrow> bool"

text \<open>The loop of \<^verbatim>\<open>should_explore_more\<close>, which returns at the first unvisited neighbour.\<close>

fun unvisited_neighbour :: "mouse \<Rightarrow> int list \<Rightarrow> bool option" where
  "unvisited_neighbour s [] = Some False"
| "unvisited_neighbour s (d # ds) =
     (case is_wall s (pos_x s) (pos_y s) d of None \<Rightarrow> None
      | Some True \<Rightarrow> unvisited_neighbour s ds
      | Some False \<Rightarrow>
         (case get_direction_offset d of None \<Rightarrow> None
          | Some (dx, dy) \<Rightarrow>
             (let next_x = pos_x s + dx; next_y = pos_y s + dy in
              if 0 \<le> next_x \<and> next_x < width s \<and> 0 \<le> next_y \<and> next_y < height s \<and>
                 (next_x, next_y) \<notin> visited s
              then Some True
              else unvisited_neighbour s ds)))"

definition should_explore_more :: "float_tests \<Rightarrow> mouse \<Rightarrow> bool option" where
  "should_explore_more ft s =
     (if phase s = SpeedRun then Some False
      else case grid_get (flood_values s) (pos_x s) (pos_y s) of None \<Rightarrow> None
           | Some current_value \<Rightarrow>
              (case unvisited_neighbour s (range_py 4) of None \<Rightarrow> None
               | Some True \<Rightarrow> Some True
               | Some False \<Rightarrow>
                  if at_goal s \<and> above_70_percent ft (card (visited s)) (width s * height s)
                  then Some False
                  else Some (below_90_percent ft (card (visited s)) (width s * height s))))"

text \<open>A score of the exploration branch: a Python int, or \<^verbatim>\<open>float('inf')\<close>.\<close>

datatype pynum = Num int | PosInf

fun pynum_less :: "pynum \<Rightarrow> pynum \<Rightarrow> bool" where
  "pynum_less (Num a) (Num b) = (a < b)"
| "pynum_less (Num a) PosInf = True"
| "pynum_less PosInf _ = False"

text \<open>\<^verbatim>\<open>v - 100\<close> and \<^verbatim>\<open>v\<close> for a flood value \<open>v\<close>.\<close>

fun flood_minus :: "enat \<Rightarrow> int \<Rightarrow> pynum" where
  "flood_minus (enat n) k = Num (int n - k)"
| "flood_minus \<infinity> k = PosInf"

text \<open>Lines 390-407 of \<^verbatim>\<open>run\<close>: the move selection of the exploration phase.\<close>

definition explore_direction :: "mouse \<Rightarrow> int option option" where
  "explore_direction s =
     (case for_each (range_py 4)
             (\<lambda>d (best_direction, best_value).
                 case is_wall s (pos_x s) (pos_y s) d of None \<Rightarrow> None
                 | Some True \<Rightarrow> Some (best_direction, best_value)
                 | Some False \<Rightarrow>
                    (case get_direction_offset d of None \<Rightarrow> None
                     | Some (dx, dy) \<Rightarrow>
                        (let next_x = pos_x s + dx; next_y = pos_y s + dy in
                         if 0 \<le> next_x \<and> next_x < width s \<and> 0 \<le> next_y \<and> next_y < height s then
                           (case grid_get (flood_values s) next_x next_y of None \<Rightarrow> None
                            | Some v \<Rightarrow>
                               (let next_value =
                                      (if (next_x, next_y) \<notin> visited s then flood_minus v 100
                                       else flood_minus v 0) in
                                if pynum_less next_value best_value then Some (Some d, next_value)
                                else Some (best_direction, best_value)))
                         else Some (best_direction, best_value))))
             (None, PosInf) of
        None \<Rightarrow> None
      | Some (best_direction, best_value) \<Rightarrow> Some best_direction)"

text \<open>Lines 387-410: which of the two selections runs.\<close>

definition choose_direction :: "float_tests \<Rightarrow> mouse \<Rightarrow> int option option" where
  "choose_direction ft s =
     (case should_explore_more ft s of None \<Rightarrow> None
      | Some explore_more \<Rightarrow>
          if explore_more \<and> phase s = Explore then explore_direction s else get_best_direction s)"

text \<open>Lines 325-359: the reset handling. It does not assign \<^verbatim>\<open>self.flood_values\<close>.\<close>

definition reset :: "mouse \<Rightarrow> (cmd list \<times> mouse) option" where
  "reset s =
     (case initialize_boundaries (width s) (height s) (new_grid (width s) (height s) 0) of
        None \<Rightarrow> None
      | Some g \<Rightarrow>
          Some ([AckReset],
                s\<lparr>pos_x := 0, pos_y := 0, direction := 0, phase := Explore,
                  visited := {(0, 0)}, walls := g,
                  goals := center_goals (width s) (height s)\<rparr>))"

text \<open>
  One pass through the body of the \<^verbatim>\<open>while True\<close> loop of \<^verbatim>\<open>run\<close>, for the incremented
  step count and the answers the simulator gives to this pass's queries. The pass ends at a
  \<^verbatim>\<open>continue\<close> or at the end of the body (\<open>Continue\<close>), or at a \<^verbatim>\<open>break\<close>.
\<close>

datatype stop = SpeedRunComplete | NoValidMoves | MaximumSteps

datatype outcome = Continue mouse | Break stop mouse

definition cycle :: "float_tests \<Rightarrow> int \<Rightarrow> sensors \<Rightarrow> mouse \<Rightarrow> (cmd list \<times> outcome) option" where
  "cycle ft step_count sens s =
     (if was_reset sens then
        (case reset s of None \<Rightarrow> None | Some (cs, s') \<Rightarrow> Some (cs, Continue s'))
      else
        case scan_walls sens s of None \<Rightarrow> None
        | Some s1 \<Rightarrow>
           (case floodfill s1 of None \<Rightarrow> None
            | Some s2 \<Rightarrow>
               if at_goal s2 then
                 (case phase s2 of
                    Explore \<Rightarrow> Some ([], Continue (s2\<lparr>phase := SpeedRun, goals := [(0, 0)]\<rparr>))
                  | SpeedRun \<Rightarrow> Some ([], Break SpeedRunComplete s2))
               else
                 (case choose_direction ft s2 of None \<Rightarrow> None
                  | Some None \<Rightarrow> Some ([], Break NoValidMoves s2)
                  | Some (Some best_direction) \<Rightarrow>
                     (case turn_to_direction best_direction s2 of None \<Rightarrow> None
                      | Some (cs, s3) \<Rightarrow>
                         (case move_forward s3 of None \<Rightarrow> None
                          | Some (ms, s4) \<Rightarrow>
                             Some (cs @ ms,
                                   if step_count > 10000 then Break MaximumSteps s4
                                   else Continue s4))))))"

text \<open>
  The loop of \<^verbatim>\<open>run\<close> on the answers of the simulator, one \<open>sensors\<close> value for each pass.
  When the answers are used up and no \<^verbatim>\<open>break\<close> was reached the loop is still \<open>Running\<close>.
\<close>

datatype run_state = Running int mouse | Stopped stop int mouse

fun run :: "float_tests \<Rightarrow> sensors list \<Rightarrow> int \<Rightarrow> mouse \<Rightarrow> (cmd list \<times> run_state) option" where
  "run ft [] step_count s = Some ([], Running step_count s)"
| "run ft (sens # rest) step_count s =
     (case cycle ft (step_count + 1) sens s of None \<Rightarrow> None
      | Some (cs, Break why s') \<Rightarrow> Some (cs, Stopped why (step_count + 1) s')
      | Some (cs, Continue s') \<Rightarrow>
         (case run ft rest (step_count + 1) s' of None \<Rightarrow> None
          | Some (cs', r) \<Rightarrow> Some (cs @ cs', r)))"

section \<open>Vocabulary of the properties\<close>

subsection \<open>Concrete controllers and answers\<close>

text \<open>The controller the constructor builds for a 3 by 3 maze.\<close>

definition fresh_3x3 :: mouse where
  "fresh_3x3 =
     \<lparr>width = 3, height = 3, pos_x = 0, pos_y = 0, direction = 0,
      walls = [[12, 8, 9], [4, 0, 1], [6, 2, 3]],
      flood_values = [[0, 0, 0], [0, 0, 0], [0, 0, 0]],
      goals = [(1, 1)], phase = Explore, visited = {(0, 0)}\<rparr>"

text \<open>The same controller with the flood values of an empty 3 by 3 maze.\<close>

definition flooded_3x3 :: mouse where
  "flooded_3x3 = fresh_3x3\<lparr>flood_values := [[2, 1, 2], [1, 0, 1], [2, 1, 2]]\<rparr>"

text \<open>
  Answers of the simulator: a pass that sees the reset signal; the pass at the start cell of
  an empty maze, heading north; a pass with no wall around the robot.
\<close>

definition reset_signal :: sensors where
  "reset_signal = \<lparr>was_reset = True, wall_front = False, wall_right = False,
                    wall_back = False, wall_left = False\<rparr>"

definition at_start :: sensors where
  "at_start = \<lparr>was_reset = False, wall_front = False, wall_right = False,
                wall_back = True, wall_left = True\<rparr>"

definition no_walls :: sensors where
  "no_walls = \<lparr>was_reset = False, wall_front = False, wall_right = False,
                wall_back = False, wall_left = False\<rparr>"

text \<open>The two comparisons of \<^verbatim>\<open>should_explore_more\<close> as exact arithmetic decides them.\<close>

definition exact_tests :: float_tests where
  "exact_tests = \<lparr>above_70_percent = (\<lambda>n cells. 10 * int n > 7 * cells),
                   below_90_percent = (\<lambda>n cells. 10 * int n < 9 * cells)\<rparr>"

subsection \<open>Grids and wall bits\<close>

text \<open>
  Both grids are built as \<open>width\<close> rows of \<open>height\<close> entries and only updated in place.
  For such a grid and a cell inside the maze the list accesses do not raise.
\<close>

definition shape :: "int \<Rightarrow> int \<Rightarrow> 'a grid \<Rightarrow> bool" where
  "shape w h g = (length g = nat w \<and> (\<forall>row \<in> set g. length row = nat h))"

text \<open>The cell \<open>c\<close> lies in the grid: the bounds test the code writes out.\<close>

definition inside :: "int \<Rightarrow> int \<Rightarrow> int \<times> int \<Rightarrow> bool" where
  "inside w h c = (0 \<le> fst c \<and> fst c < w \<and> 0 \<le> snd c \<and> snd c < h)"

text \<open>The entry of a cell inside the grid, and the grid with one entry replaced.\<close>

definition cell :: "'a grid \<Rightarrow> int \<times> int \<Rightarrow> 'a" where
  "cell g c = g ! nat (fst c) ! nat (snd c)"

definition gupd :: "'a grid \<Rightarrow> int \<times> int \<Rightarrow> 'a \<Rightarrow> 'a grid" where
  "gupd g c v = g[nat (fst c) := (g ! nat (fst c))[nat (snd c) := v]]"

text \<open>\<open>adds w h S g g'\<close>: \<open>g'\<close> has the wall bits of \<open>g\<close> and those of \<open>S\<close>.\<close>

definition adds :: "int \<Rightarrow> int \<Rightarrow> ((int \<times> int) \<times> nat) set \<Rightarrow> int grid \<Rightarrow> int grid \<Rightarrow> bool" where
  "adds w h S g g' = (shape w h g' \<and>
     (\<forall>c n. inside w h c \<longrightarrow> (bit (cell g' c) n \<longleftrightarrow> bit (cell g c) n \<or> (c, n) \<in> S)))"

text \<open>
  The outward-facing bits of the cells on the edge: south (bit 2) in row 0, north (bit 0) in
  the top row, west (bit 3) in column 0 and east (bit 1) in the last column.
\<close>

definition boundary_bits :: "int \<Rightarrow> int \<Rightarrow> ((int \<times> int) \<times> nat) set" where
  "boundary_bits w h =
     {(c, n). inside w h c \<and> (snd c = 0 \<and> n = 2 \<or> snd c = h - 1 \<and> n = 0 \<or>
                               fst c = 0 \<and> n = 3 \<or> fst c = w - 1 \<and> n = 1)}"

text \<open>The bits \<open>set_wall\<close> adds for a cell inside the grid and a direction from 0 to 3.\<close>

definition wall_pair :: "int \<Rightarrow> int \<Rightarrow> int \<Rightarrow> int \<Rightarrow> int \<Rightarrow> ((int \<times> int) \<times> nat) set" where
  "wall_pair w h a b d =
     (case get_direction_offset d of None \<Rightarrow> {}
      | Some (dx, dy) \<Rightarrow>
          {((a, b), nat d)} \<union>
          (if inside w h (a + dx, b + dy) then {((a + dx, b + dy), nat ((d + 2) mod 4))} else {}))"

text \<open>
  Symmetry of the wall bits of a grid: the north bit of a cell is the south bit of the cell
  above it, and its east bit is the west bit of the cell to its right.
\<close>

definition wall_sym :: "int \<Rightarrow> int \<Rightarrow> int grid \<Rightarrow> bool" where
  "wall_sym w h g =
     (\<forall>a b. (inside w h (a, b) \<and> inside w h (a, b + 1) \<longrightarrow>
               (bit (cell g (a, b)) 0 \<longleftrightarrow> bit (cell g (a, b + 1)) 2)) \<and>
            (inside w h (a, b) \<and> inside w h (a + 1, b) \<longrightarrow>
               (bit (cell g (a, b)) 1 \<longleftrightarrow> bit (cell g (a + 1, b)) 3)))"

subsection \<open>Wall-respecting paths\<close>

abbreviation ins :: "mouse \<Rightarrow> int \<times> int \<Rightarrow> bool" where
  "ins s c \<equiv> inside (width s) (height s) c"

text \<open>
  A hop from the cell \<open>c\<close> to its neighbour \<open>c'\<close> in direction \<open>d\<close>: both cells are inside the
  grid and \<open>is_wall\<close> at \<open>c\<close> in direction \<open>d\<close> is false.
\<close>

definition hop_dir :: "mouse \<Rightarrow> int \<times> int \<Rightarrow> int \<Rightarrow> int \<times> int \<Rightarrow> bool" where
  "hop_dir s c d c' =
     (ins s c \<and> ins s c' \<and>
      get_direction_offset d = Some (fst c' - fst c, snd c' - snd c) \<and>
      is_wall s (fst c) (snd c) d = Some False)"

definition hop :: "mouse \<Rightarrow> int \<times> int \<Rightarrow> int \<times> int \<Rightarrow> bool" where
  "hop s c c' = (\<exists>d \<in> {0, 1, 2, 3}. hop_dir s c d c')"

text \<open>A wall-respecting path: a non-empty list of cells inside the grid, each a hop from the one before.\<close>

fun path :: "mouse \<Rightarrow> (int \<times> int) list \<Rightarrow> bool" where
  "path s [] = False"
| "path s [c] = ins s c"
| "path s (c # c' # cs) = (hop s c c' \<and> path s (c' # cs))"

text \<open>A path from the cell \<open>c\<close> to a goal cell; it has \<open>length p - 1\<close> hops.\<close>

definition goal_path :: "mouse \<Rightarrow> int \<times> int \<Rightarrow> (int \<times> int) list \<Rightarrow> bool" where
  "goal_path s c p = (path s p \<and> hd p = c \<and> last p \<in> set (goals s))"

subsection \<open>Invariants of the flood fill\<close>

text \<open>Every finite flood value is the number of hops of some path from a goal to the cell.\<close>

definition sound :: "mouse \<Rightarrow> enat grid \<Rightarrow> bool" where
  "sound s fv =
     (\<forall>c k. ins s c \<longrightarrow> cell fv c = enat k \<longrightarrow>
        (\<exists>p. path s p \<and> hd p \<in> set (goals s) \<and> last p = c \<and> length p = Suc k))"

text \<open>No hop out of the cell \<open>c\<close> leads to a cell whose value exceeds that of \<open>c\<close> by more than 1.\<close>

definition relaxed :: "mouse \<Rightarrow> enat grid \<Rightarrow> int \<times> int \<Rightarrow> bool" where
  "relaxed s fv c = (\<forall>c'. hop s c c' \<longrightarrow> cell fv c' \<le> cell fv c + 1)"

text \<open>
  The invariant of the \<^verbatim>\<open>while queue\<close> loop: the grid has the maze's shape, the queued cells
  are inside the grid, the values are sound, the goals have value 0, and every cell with a
  finite value that is not queued is relaxed.
\<close>

definition bfs_inv :: "mouse \<Rightarrow> enat grid \<Rightarrow> (int \<times> int) list \<Rightarrow> bool" where
  "bfs_inv s fv q =
     (shape (width s) (height s) fv \<and> (\<forall>c \<in> set q. ins s c) \<and> sound s fv \<and>
      (\<forall>g \<in> set (goals s). ins s g \<and> cell fv g = 0) \<and>
      (\<forall>c. ins s c \<longrightarrow> cell fv c \<noteq> \<infinity> \<longrightarrow> c \<notin> set q \<longrightarrow> relaxed s fv c))"

text \<open>
  The invariant of the loop over the four directions for the dequeued cell \<open>c\<close> with value
  \<open>cur\<close>, after the directions in \<open>D\<close>.
\<close>

definition inner_inv ::
  "mouse \<Rightarrow> int \<times> int \<Rightarrow> enat \<Rightarrow> int set \<Rightarrow> enat grid \<Rightarrow> (int \<times> int) list \<Rightarrow> bool" where
  "inner_inv s c cur D fv q =
     (shape (width s) (height s) fv \<and> (\<forall>c \<in> set q. ins s c) \<and> sound s fv \<and>
      (\<forall>g \<in> set (goals s). ins s g \<and> cell fv g = 0) \<and>
      (\<forall>c'. ins s c' \<longrightarrow> c' \<noteq> c \<longrightarrow> cell fv c' \<noteq> \<infinity> \<longrightarrow> c' \<notin> set q \<longrightarrow> relaxed s fv c') \<and>
      ins s c \<and> cell fv c = cur \<and>
      (\<forall>d \<in> D. \<forall>c'. hop_dir s c d c' \<longrightarrow> cell fv c' \<le> cur + 1))"

text \<open>\<open>fills w h S v g g'\<close>: \<open>g'\<close> is \<open>g\<close> with the value \<open>v\<close> at the cells of \<open>S\<close>.\<close>

definition fills :: "int \<Rightarrow> int \<Rightarrow> (int \<times> int) set \<Rightarrow> 'a \<Rightarrow> 'a grid \<Rightarrow> 'a grid \<Rightarrow> bool" where
  "fills w h S v g g' = (shape w h g' \<and>
     (\<forall>c. inside w h c \<longrightarrow> cell g' c = (if c \<in> S then v else cell g c)))"

subsection \<open>Invariants of the navigation\<close>

text \<open>
  The maze has at least one cell, both grids have the maze's shape, the goal cells and the
  robot's cell are inside the grid, and the heading is one of the four directions.
\<close>

definition well_formed :: "mouse \<Rightarrow> bool" where
  "well_formed s =
     (1 \<le> width s \<and> 1 \<le> height s \<and>
      shape (width s) (height s) (walls s) \<and>
      shape (width s) (height s) (flood_values s) \<and>
      (\<forall>g \<in> set (goals s). inside (width s) (height s) g) \<and>
      inside (width s) (height s) (pos_x s, pos_y s) \<and>
      direction s \<in> {0, 1, 2, 3})"

text \<open>A selected direction is one of the four, is not walled, and leads to a cell of the grid.\<close>

definition open_direction :: "mouse \<Rightarrow> int option \<Rightarrow> bool" where
  "open_direction s sel =
     (case sel of None \<Rightarrow> True
      | Some d \<Rightarrow> d \<in> {0, 1, 2, 3} \<and> is_wall s (pos_x s) (pos_y s) d = Some False \<and>
          (\<exists>dx dy. get_direction_offset d = Some (dx, dy) \<and>
                   inside (width s) (height s) (pos_x s + dx, pos_y s + dy)))"

text \<open>The common shape of the two selection loops: \<open>score\<close> values a neighbour, \<open>better\<close> compares.\<close>

definition select_body ::
  "mouse \<Rightarrow> (enat \<Rightarrow> int \<times> int \<Rightarrow> 'v) \<Rightarrow> ('v \<Rightarrow> 'v \<Rightarrow> bool) \<Rightarrow> int \<Rightarrow> int option \<times> 'v
     \<Rightarrow> (int option \<times> 'v) option" where
  "select_body s score better d st =
     (case st of (best_direction, best_value) \<Rightarrow>
        case is_wall s (pos_x s) (pos_y s) d of None \<Rightarrow> None
        | Some True \<Rightarrow> Some (best_direction, best_value)
        | Some False \<Rightarrow>
           (case get_direction_offset d of None \<Rightarrow> None
            | Some (dx, dy) \<Rightarrow>
               (let next_x = pos_x s + dx; next_y = pos_y s + dy in
                if 0 \<le> next_x \<and> next_x < width s \<and> 0 \<le> next_y \<and> next_y < height s then
                  (case grid_get (flood_values s) next_x next_y of None \<Rightarrow> None
                   | Some v \<Rightarrow>
                      if better (score v (next_x, next_y)) best_value
                      then Some (Some d, score v (next_x, next_y))
                      else Some (best_direction, best_value))
                else Some (best_direction, best_value))))"

text \<open>The controller a pass, and a run, leave behind.\<close>

fun outcome_state :: "outcome \<Rightarrow> mouse" where
  "outcome_state (Continue s) = s"
| "outcome_state (Break why s) = s"

fun final_state :: "run_state \<Rightarrow> mouse" where
  "final_state (Running n s) = s"
| "final_state (Stopped why n s) = s"

text \<open>
  The 3 by 3 controller after two passes in an empty maze: north from the start cell, then
  east onto the goal cell (1, 1). In the second pass the robot has the west boundary on its
  left.
\<close>

definition wall_on_left :: sensors where
  "wall_on_left = \<lparr>was_reset = False, wall_front = False, wall_right = False,
                    wall_back = False, wall_left = True\<rparr>"

definition at_goal_3x3 :: mouse where
  "at_goal_3x3 = flooded_3x3\<lparr>pos_x := 1, pos_y := 1, direction := 1,
                              visited := {(0, 0), (0, 1), (1, 1)}\<rparr>"

section \<open>A concrete controller\<close>

lemma init_3x3: "init 3 3 = Some fresh_3x3"
  by (simp add: init_def initialize_boundaries_def range_py_def upto.simps grid_or_def grid_get_def
      grid_set_def py_get_def py_set_def py_index_def new_grid_def center_goals_def fresh_3x3_def
      numeral_3_eq_3)

section \<open>Grids of the maze's shape\<close>

lemma py_index_inside: "0 \<le> i \<Longrightarrow> i < int (length xs) \<Longrightarrow> py_index xs i = Some (nat i)"
  by (simp add: py_index_def)

lemma shape_row: "shape w h g \<Longrightarrow> 0 \<le> a \<Longrightarrow> a < w \<Longrightarrow> length (g ! nat a) = nat h"
  by (simp add: shape_def)

lemma grid_get_inside:
  assumes "shape w h g" "inside w h (a, b)"
  shows "grid_get g a b = Some (cell g (a, b))"
proof -
  have 1: "py_index g a = Some (nat a)"
    using assms by (intro py_index_inside) (auto simp: shape_def inside_def)
  have 2: "py_index (g ! nat a) b = Some (nat b)"
    using assms shape_row[OF assms(1), of a] by (intro py_index_inside) (auto simp: inside_def)
  show ?thesis by (simp add: grid_get_def py_get_def 1 2 cell_def)
qed

lemma grid_set_inside:
  assumes "shape w h g" "inside w h (a, b)"
  shows "grid_set g a b v = Some (gupd g (a, b) v)"
proof -
  have 1: "py_index g a = Some (nat a)"
    using assms by (intro py_index_inside) (auto simp: shape_def inside_def)
  have 2: "py_index (g ! nat a) b = Some (nat b)"
    using assms shape_row[OF assms(1), of a] by (intro py_index_inside) (auto simp: inside_def)
  show ?thesis by (simp add: grid_set_def py_get_def py_set_def 1 2 gupd_def)
qed

lemma shape_gupd: "shape w h g \<Longrightarrow> shape w h (gupd g c v)"
proof (cases "nat (fst c) < length g")
  case True
  assume "shape w h g"
  with True show ?thesis
    by (auto simp: shape_def gupd_def dest!: set_update_subset_insert[THEN subsetD])
next
  case False
  assume "shape w h g"
  with False show ?thesis by (simp add: gupd_def list_update_beyond)
qed

lemma cell_gupd:
  assumes "shape w h g" "inside w h c" "inside w h c'"
  shows "cell (gupd g c v) c' = (if c' = c then v else cell g c')"
proof -
  have l: "nat (fst c) < length g" "nat (fst c') < length g"
    using assms by (auto simp: shape_def inside_def)
  have r: "nat (snd c) < length (g ! nat (fst c))"
    using assms shape_row[OF assms(1), of "fst c"] by (auto simp: inside_def)
  have e: "c' = c \<longleftrightarrow> nat (fst c') = nat (fst c) \<and> nat (snd c') = nat (snd c)"
    using assms(2,3) by (auto simp: inside_def prod_eq_iff)
  show ?thesis
    using l r by (auto simp: cell_def gupd_def nth_list_update e)
qed

lemma shape_new_grid: "shape w h (new_grid w h v)"
  by (simp add: shape_def new_grid_def)

lemma cell_new_grid: "inside w h c \<Longrightarrow> cell (new_grid w h v) c = v"
  by (simp add: cell_def new_grid_def inside_def)

lemma grid_or_inside:
  assumes "shape w h g" "inside w h (a, b)"
  shows "grid_or g a b m = Some (gupd g (a, b) (cell g (a, b) OR m))"
  by (simp add: grid_or_def grid_get_inside[OF assms] grid_set_inside[OF assms])

lemma adds_refl: "shape w h g \<Longrightarrow> adds w h {} g g"
  by (simp add: adds_def)

lemma adds_trans: "adds w h S g g' \<Longrightarrow> adds w h T g' g'' \<Longrightarrow> adds w h (S \<union> T) g g''"
  by (auto simp: adds_def)

lemma adds_shape: "adds w h S g g' \<Longrightarrow> shape w h g'"
  by (simp add: adds_def)

lemma grid_or_adds:
  assumes "shape w h g" "inside w h (a, b)"
  shows "grid_or g a b (push_bit k 1) = Some (gupd g (a, b) (cell g (a, b) OR push_bit k 1)) \<and>
         adds w h {((a, b), k)} g (gupd g (a, b) (cell g (a, b) OR push_bit k 1))"
  using assms
  by (auto simp: grid_or_inside adds_def shape_gupd cell_gupd bit_or_iff bit_exp_iff)

lemma for_each_adds:
  assumes "\<And>x g. x \<in> set xs \<Longrightarrow> shape w h g \<Longrightarrow> \<exists>g'. body x g = Some g' \<and> adds w h (S x) g g'"
    and "shape w h g"
  shows "\<exists>g'. for_each xs body g = Some g' \<and> adds w h (\<Union>x\<in>set xs. S x) g g'"
  using assms
proof (induction xs arbitrary: g)
  case Nil
  then show ?case by (simp add: adds_refl)
next
  case (Cons x xs)
  from Cons.prems(1)[of x g] Cons.prems(2)
  obtain g1 where 1: "body x g = Some g1" "adds w h (S x) g g1" by auto
  from Cons.IH[of g1] Cons.prems(1) adds_shape[OF 1(2)]
  obtain g2 where 2: "for_each xs body g1 = Some g2" "adds w h (\<Union>x\<in>set xs. S x) g1 g2"
    by auto
  from adds_trans[OF 1(2) 2(2)] 1(1) 2(1) show ?case by simp
qed

lemma set_range_py: "set (range_py n) = {0..<n}"
  by (auto simp: range_py_def)

lemma bits: "push_bit 2 1 = (4::int)" "push_bit 0 1 = (1::int)" "push_bit 3 1 = (8::int)" "push_bit 1 1 = (2::int)"
  by simp_all

lemma initialize_boundaries_adds:
  assumes "1 \<le> w" "1 \<le> h" "shape w h g"
  shows "\<exists>g'. initialize_boundaries w h g = Some g' \<and> adds w h (boundary_bits w h) g g'"
proof -
  let ?b1 = "\<lambda>a g. case grid_or g a 0 4 of None \<Rightarrow> None | Some g' \<Rightarrow> grid_or g' a (h - 1) 1"
  let ?b2 = "\<lambda>b g. case grid_or g 0 b 8 of None \<Rightarrow> None | Some g' \<Rightarrow> grid_or g' (w - 1) b 2"
  have s1: "\<exists>g'. ?b1 a g = Some g' \<and> adds w h {((a, 0), 2), ((a, h - 1), 0)} g g'"
    if "a \<in> set (range_py w)" "shape w h g" for a g
  proof -
    have i: "inside w h (a, 0)" "inside w h (a, h - 1)"
      using that assms by (auto simp: inside_def set_range_py)
    from grid_or_adds[OF that(2) i(1), of 2] obtain g1 where
      1: "grid_or g a 0 4 = Some g1" "adds w h {((a, 0), 2)} g g1" by (auto simp only: bits)
    from grid_or_adds[OF adds_shape[OF 1(2)] i(2), of 0] obtain g2 where
      2: "grid_or g1 a (h - 1) 1 = Some g2" "adds w h {((a, h - 1), 0)} g1 g2" by (auto simp only: bits)
    from adds_trans[OF 1(2) 2(2)] 1(1) 2(1) show ?thesis by (simp add: insert_commute)
  qed
  have s2: "\<exists>g'. ?b2 b g = Some g' \<and> adds w h {((0, b), 3), ((w - 1, b), 1)} g g'"
    if "b \<in> set (range_py h)" "shape w h g" for b g
  proof -
    have i: "inside w h (0, b)" "inside w h (w - 1, b)"
      using that assms by (auto simp: inside_def set_range_py)
    from grid_or_adds[OF that(2) i(1), of 3] obtain g1 where
      1: "grid_or g 0 b 8 = Some g1" "adds w h {((0, b), 3)} g g1" by (auto simp only: bits)
    from grid_or_adds[OF adds_shape[OF 1(2)] i(2), of 1] obtain g2 where
      2: "grid_or g1 (w - 1) b 2 = Some g2" "adds w h {((w - 1, b), 1)} g1 g2" by (auto simp only: bits)
    from adds_trans[OF 1(2) 2(2)] 1(1) 2(1) show ?thesis by (simp add: insert_commute)
  qed
  from for_each_adds[of "range_py w" w h ?b1 "\<lambda>a. {((a, 0), 2), ((a, h - 1), 0)}" g, OF s1 assms(3)]
  obtain g1 where 1: "for_each (range_py w) ?b1 g = Some g1"
     "adds w h (\<Union>a\<in>set (range_py w). {((a, 0), 2), ((a, h - 1), 0)}) g g1" by blast
  from for_each_adds[of "range_py h" w h ?b2 "\<lambda>b. {((0, b), 3), ((w - 1, b), 1)}" g1, OF s2 adds_shape[OF 1(2)]]
  obtain g2 where 2: "for_each (range_py h) ?b2 g1 = Some g2"
     "adds w h (\<Union>b\<in>set (range_py h). {((0, b), 3), ((w - 1, b), 1)}) g1 g2" by blast
  have e: "(\<Union>a\<in>set (range_py w). {((a, 0), 2), ((a, h - 1), 0)}) \<union>
           (\<Union>b\<in>set (range_py h). {((0, b), 3), ((w - 1, b), 1)}) = boundary_bits w h"
    using assms(1,2) by (auto simp: boundary_bits_def set_range_py inside_def)
  from adds_trans[OF 1(2) 2(2)] have "adds w h (boundary_bits w h) g g2" by (simp only: e)
  with 1(1) 2(1) show ?thesis by (simp add: initialize_boundaries_def)
qed

lemma get_direction_offset_simps:
  "get_direction_offset 0 = Some (0, 1)" "get_direction_offset 1 = Some (1, 0)"
  "get_direction_offset 2 = Some (0, -1)" "get_direction_offset 3 = Some (-1, 0)"
  by (simp_all add: get_direction_offset_def py_get_def py_index_def)

lemma is_wall_outside: "\<not> inside (width s) (height s) (a, b) \<Longrightarrow> is_wall s a b d = Some True"
  by (auto simp: is_wall_def inside_def)

lemma is_wall_inside:
  assumes "shape (width s) (height s) (walls s)" "inside (width s) (height s) (a, b)" "0 \<le> d"
  shows "is_wall s a b d = Some (bit (cell (walls s) (a, b)) (nat d))"
proof -
  have "\<not> (a < 0 \<or> a \<ge> width s \<or> b < 0 \<or> b \<ge> height s)"
    using assms(2) by (auto simp: inside_def)
  then show ?thesis
    using assms(3)
    by (simp add: is_wall_def grid_get_inside[OF assms(1,2)] get_direction_bit_def
        bit_iff_and_push_bit_not_eq_0)
qed

lemma init_walls:
  assumes "1 \<le> w" "1 \<le> h"
  shows "\<exists>g. init w h =
            Some \<lparr>width = w, height = h, pos_x = 0, pos_y = 0, direction = 0, walls = g,
                  flood_values = new_grid w h 0, goals = center_goals w h,
                  phase = Explore, visited = {(0, 0)}\<rparr> \<and>
            shape w h g \<and>
            (\<forall>c n. inside w h c \<longrightarrow> (bit (cell g c) n \<longleftrightarrow> (c, n) \<in> boundary_bits w h))"
proof -
  from initialize_boundaries_adds[OF assms shape_new_grid, of "0::int"]
  obtain g where g: "initialize_boundaries w h (new_grid w h 0) = Some g"
    "adds w h (boundary_bits w h) (new_grid w h 0) g" by blast
  from g(2) have "\<forall>c n. inside w h c \<longrightarrow> (bit (cell g c) n \<longleftrightarrow> (c, n) \<in> boundary_bits w h)"
    by (simp add: adds_def cell_new_grid)
  with g show ?thesis by (simp add: init_def adds_def)
qed

lemma boundary_walls_aux:
  assumes "1 \<le> w" "1 \<le> h"
  shows "\<exists>s. init w h = Some s \<and>
           (\<forall>a b d dx dy. d \<in> {0, 1, 2, 3} \<longrightarrow> get_direction_offset d = Some (dx, dy) \<longrightarrow>
              (\<not> (0 \<le> a \<and> a < w \<and> 0 \<le> b \<and> b < h) \<or>
               \<not> (0 \<le> a + dx \<and> a + dx < w \<and> 0 \<le> b + dy \<and> b + dy < h)) \<longrightarrow>
              is_wall s a b d = Some True)"
proof -
  from init_walls[OF assms] obtain s where s: "init w h = Some s" "width s = w" "height s = h"
    "shape w h (walls s)"
    "\<forall>c n. inside w h c \<longrightarrow> (bit (cell (walls s) c) n \<longleftrightarrow> (c, n) \<in> boundary_bits w h)"
    by force
  have "is_wall s a b d = Some True"
    if d: "d \<in> {0, 1, 2, 3}" and o: "get_direction_offset d = Some (dx, dy)"
      and out: "\<not> inside w h (a, b) \<or> \<not> inside w h (a + dx, b + dy)" for a b d dx dy
  proof (cases "inside w h (a, b)")
    case False
    then show ?thesis using is_wall_outside[of s a b d] s(2,3) by simp
  next
    case True
    have 0: "0 \<le> d" using d by auto
    have "is_wall s a b d = Some (bit (cell (walls s) (a, b)) (nat d))"
      using is_wall_inside[of s a b d] s(2,3,4) True 0 by simp
    moreover have "((a, b), nat d) \<in> boundary_bits w h"
      using d o out True
      by (auto simp: boundary_bits_def inside_def get_direction_offset_simps)
    ultimately show ?thesis using s(5) True by simp
  qed
  then show ?thesis using s(1) by (auto simp: inside_def)
qed

lemma center_goals_set:
  assumes "1 \<le> w" "1 \<le> h"
  shows "set (center_goals w h) =
           {(a, b). \<bar>2 * a + 1 - w\<bar> \<le> 1 \<and> \<bar>2 * b + 1 - h\<bar> \<le> 1}"
proof -
  have x: "\<bar>2 * a + 1 - w\<bar> \<le> 1 \<longleftrightarrow> (if w mod 2 = 0 then a = w div 2 - 1 \<or> a = w div 2 else a = w div 2)" for a
    by presburger
  have y: "\<bar>2 * b + 1 - h\<bar> \<le> 1 \<longleftrightarrow> (if h mod 2 = 0 then b = h div 2 - 1 \<or> b = h div 2 else b = h div 2)" for b
    by presburger
  show ?thesis
    unfolding x y by (auto simp: center_goals_def Let_def)
qed

lemma center_goals_count:
  "distinct (center_goals w h) \<and>
   length (center_goals w h) =
     (if odd w \<and> odd h then 1 else if even w \<and> even h then 4 else 2)"
  by (auto simp: center_goals_def Let_def even_iff_mod_2_eq_zero)

lemma center_goals_inside:
  assumes "1 \<le> w" "1 \<le> h" "c \<in> set (center_goals w h)"
  shows "inside w h c"
proof -
  obtain a b where c: "c = (a, b)" by (cases c)
  have "(a, b) \<in> {(a, b). \<bar>2 * a + 1 - w\<bar> \<le> 1 \<and> \<bar>2 * b + 1 - h\<bar> \<le> 1}"
    using assms(3) unfolding center_goals_set[OF assms(1,2)] c .
  then have "\<bar>2 * a + 1 - w\<bar> \<le> 1" "\<bar>2 * b + 1 - h\<bar> \<le> 1" by simp_all
  with assms(1,2) have "0 \<le> a \<and> a < w \<and> 0 \<le> b \<and> b < h" by arith
  then show ?thesis by (simp add: inside_def c)
qed

lemma center_goals_16: "center_goals 16 16 = [(7, 7), (8, 7), (7, 8), (8, 8)]"
  by (simp add: center_goals_def)

section \<open>Orientation correctness\<close>

lemma turn_loop_done: "turn_loop t t cs = Some (t, cs)"
  by (subst turn_loop.simps) simp

lemma turn_loop_cases:
  assumes "0 \<le> h" "h < 4" "0 \<le> t" "t < 4"
  shows "turn_loop t h [] =
     Some (t, if (t - h) mod 4 = 0 then []
              else if (t - h) mod 4 = 1 then [TurnRight]
              else if (t - h) mod 4 = 3 then [TurnLeft]
              else [TurnRight, TurnRight])"
proof -
  have hs: "h = 0 \<or> h = 1 \<or> h = 2 \<or> h = 3" using assms by arith
  have ts: "t = 0 \<or> t = 1 \<or> t = 2 \<or> t = 3" using assms by arith
  show ?thesis
    using hs ts by (elim disjE; simp; subst turn_loop.simps; simp add: turn_loop_done)
qed

text \<open>
  C4. For each of the 16 pairs of a current heading \<open>h\<close> and a target \<open>t\<close> in 0..3,
  \<open>turn_to_direction t\<close> returns with the heading equal to \<open>t\<close>, having sent no command
  when \<open>diff = (t - h) mod 4\<close> is 0, exactly one turnRight when it is 1, exactly one turnLeft
  when it is 3 and exactly two turnRight when it is 2: never more than two commands.
\<close>

theorem turn_to_direction_correct:
  assumes "h \<in> {0, 1, 2, 3}" and "t \<in> {0, 1, 2, 3}" and "direction s = h"
  shows "\<exists>cs s'. turn_to_direction t s = Some (cs, s') \<and> s' = s\<lparr>direction := t\<rparr> \<and>
           length cs \<le> 2 \<and>
           ((t - h) mod 4 = 0 \<longrightarrow> cs = []) \<and>
           ((t - h) mod 4 = 1 \<longrightarrow> cs = [TurnRight]) \<and>
           ((t - h) mod 4 = 3 \<longrightarrow> cs = [TurnLeft]) \<and>
           ((t - h) mod 4 = 2 \<longrightarrow> cs = [TurnRight, TurnRight])"
proof -
  have b: "0 \<le> h" "h < 4" "0 \<le> t" "t < 4" using assms(1,2) by auto
  have m: "(t - h) mod 4 = 0 \<or> (t - h) mod 4 = 1 \<or> (t - h) mod 4 = 2 \<or> (t - h) mod 4 = 3"
    by presburger
  show ?thesis
    using m by (auto simp: turn_to_direction_def assms(3) turn_loop_cases[OF b])
qed

theorem turn_to_direction_correct_witness:
  "direction fresh_3x3 = 0 \<and>
   turn_to_direction 1 fresh_3x3 = Some ([TurnRight], fresh_3x3\<lparr>direction := 1\<rparr>) \<and>
   turn_to_direction 2 fresh_3x3 = Some ([TurnRight, TurnRight], fresh_3x3\<lparr>direction := 2\<rparr>) \<and>
   turn_to_direction 3 fresh_3x3 = Some ([TurnLeft], fresh_3x3\<lparr>direction := 3\<rparr>)"
  using turn_to_direction_correct[of 0 1 fresh_3x3] turn_to_direction_correct[of 0 2 fresh_3x3]
    turn_to_direction_correct[of 0 3 fresh_3x3]
  by (auto simp: fresh_3x3_def)

section \<open>Goal set\<close>

lemma reset_goals:
  assumes "1 \<le> width s" "1 \<le> height s"
  shows "\<exists>cs s'. reset s = Some (cs, s') \<and> goals s' = center_goals (width s) (height s)"
proof -
  from initialize_boundaries_adds[OF assms shape_new_grid, of "0::int"]
  obtain g where "initialize_boundaries (width s) (height s) (new_grid (width s) (height s) 0) = Some g"
    by blast
  then show ?thesis by (simp add: reset_def)
qed

text \<open>
  C5. For a maze of width \<open>w \<ge> 1\<close> and height \<open>h \<ge> 1\<close> the constructor returns with the goal
  list \<open>center_goals w h\<close>, and so does the reset handling of any controller of these
  dimensions. The list has no duplicates; it has one cell when both dimensions are odd, four
  when both are even and two otherwise; its cells are exactly the cells whose centre is
  within half a cell of the centre of the maze in both coordinates, and they lie in the maze.
  For a 16 by 16 maze the list is (7,7), (8,7), (7,8), (8,8).
\<close>

theorem goal_set_center:
  assumes "1 \<le> w" and "1 \<le> h"
  shows "(\<exists>s. init w h = Some s \<and> goals s = center_goals w h) \<and>
         (\<forall>s. width s = w \<and> height s = h \<longrightarrow>
              (\<exists>cs s'. reset s = Some (cs, s') \<and> goals s' = center_goals w h)) \<and>
         distinct (center_goals w h) \<and>
         length (center_goals w h) =
           (if odd w \<and> odd h then 1 else if even w \<and> even h then 4 else 2) \<and>
         set (center_goals w h) = {(a, b). \<bar>2 * a + 1 - w\<bar> \<le> 1 \<and> \<bar>2 * b + 1 - h\<bar> \<le> 1} \<and>
         (\<forall>c \<in> set (center_goals w h). 0 \<le> fst c \<and> fst c < w \<and> 0 \<le> snd c \<and> snd c < h) \<and>
         center_goals 16 16 = [(7, 7), (8, 7), (7, 8), (8, 8)]"
proof -
  have 1: "\<exists>s. init w h = Some s \<and> goals s = center_goals w h"
    using init_walls[OF assms] by force
  have 2: "\<forall>s. width s = w \<and> height s = h \<longrightarrow>
              (\<exists>cs s'. reset s = Some (cs, s') \<and> goals s' = center_goals w h)"
    using reset_goals assms by blast
  have 3: "\<forall>c \<in> set (center_goals w h). 0 \<le> fst c \<and> fst c < w \<and> 0 \<le> snd c \<and> snd c < h"
    using center_goals_inside[OF assms] by (simp add: inside_def)
  show ?thesis
    using 1 2 3 center_goals_count[of w h] center_goals_set[OF assms] center_goals_16
    by blast
qed

theorem goal_set_center_witness:
  "(1::int) \<le> 3 \<and> init 3 3 = Some fresh_3x3 \<and> goals fresh_3x3 = center_goals 3 3 \<and>
   length (center_goals 3 3) = 1 \<and> set (center_goals 3 3) = {(1, 1)} \<and>
   length (center_goals 4 3) = 2 \<and> length (center_goals 4 6) = 4"
  using goal_set_center[of 3 3] goal_set_center[of 4 3] goal_set_center[of 4 6] init_3x3
  by (simp add: fresh_3x3_def center_goals_def)

section \<open>Boundary walls\<close>

text \<open>
  C6. For \<open>w \<ge> 1\<close> and \<open>h \<ge> 1\<close> the constructor returns a controller for which
  \<open>is_wall\<close> answers true at every cell and direction (0 to 3, with offset \<open>(dx, dy)\<close>)
  such that the cell itself or its neighbour in that direction lies outside the grid.
\<close>

theorem boundary_walls:
  assumes "1 \<le> w" and "1 \<le> h"
  shows "\<exists>s. init w h = Some s \<and>
           (\<forall>a b d dx dy. d \<in> {0, 1, 2, 3} \<longrightarrow> get_direction_offset d = Some (dx, dy) \<longrightarrow>
              (\<not> (0 \<le> a \<and> a < w \<and> 0 \<le> b \<and> b < h) \<or>
               \<not> (0 \<le> a + dx \<and> a + dx < w \<and> 0 \<le> b + dy \<and> b + dy < h)) \<longrightarrow>
              is_wall s a b d = Some True)"
  using assms by (rule boundary_walls_aux)

theorem boundary_walls_witness:
  "(1::int) \<le> 3 \<and> is_wall fresh_3x3 0 0 3 = Some True \<and> is_wall fresh_3x3 0 0 2 = Some True \<and>
   is_wall fresh_3x3 2 2 0 = Some True \<and> is_wall fresh_3x3 (-1) 5 1 = Some True"
proof -
  from boundary_walls[of 3 3] init_3x3
  have w: "\<And>a b d dx dy. d \<in> {0, 1, 2, 3} \<Longrightarrow> get_direction_offset d = Some (dx, dy) \<Longrightarrow>
              (\<not> (0 \<le> a \<and> a < 3 \<and> 0 \<le> b \<and> b < 3) \<or>
               \<not> (0 \<le> a + dx \<and> a + dx < 3 \<and> 0 \<le> b + dy \<and> b + dy < 3)) \<Longrightarrow>
              is_wall fresh_3x3 a b d = Some True"
    by auto
  show ?thesis
    using w[of 3 "-1" 0 0 0] w[of 2 0 "-1" 0 0] w[of 0 0 1 2 2] w[of 1 1 0 "-1" 5]
    by (simp add: get_direction_offset_simps)
qed

section \<open>Out-of-range cells\<close>

text \<open>
  C9, as the code has it. For a cell outside the grid neither operation raises: \<open>is_wall\<close>
  answers true and \<open>set_wall\<close> returns the controller unchanged, whatever the direction.
\<close>

theorem out_of_range_is_silent:
  assumes "\<not> (0 \<le> a \<and> a < width s \<and> 0 \<le> b \<and> b < height s)"
  shows "is_wall s a b d = Some True \<and> set_wall a b d s = Some s"
  using assms by (auto simp: is_wall_def set_wall_def)

theorem out_of_range_is_silent_witness:
  "\<not> (0 \<le> (3::int) \<and> 3 < width fresh_3x3 \<and> 0 \<le> (7::int) \<and> 7 < height fresh_3x3) \<and>
   is_wall fresh_3x3 3 7 2 = Some True \<and> set_wall 3 7 2 fresh_3x3 = Some fresh_3x3"
  using out_of_range_is_silent[of 3 fresh_3x3 7 2] by (simp add: fresh_3x3_def)

text \<open>
  The claim as stated fails: on the fresh 3 by 3 controller, \<open>is_wall\<close> at the cell (-1, 0)
  returns true and \<open>set_wall\<close> there returns normally, with the controller as it was.
\<close>

theorem out_of_range_fails_fast_counterexample:
  "is_wall fresh_3x3 (-1) 0 0 = Some True \<and> set_wall (-1) 0 0 fresh_3x3 = Some fresh_3x3"
  by (simp add: is_wall_def set_wall_def fresh_3x3_def)

section \<open>Wall symmetry\<close>

lemma set_wall_adds:
  assumes sh: "shape (width s) (height s) (walls s)" and i: "inside (width s) (height s) (a, b)"
    and d: "d \<in> {0, 1, 2, 3}"
  shows "\<exists>g. set_wall a b d s = Some (s\<lparr>walls := g\<rparr>) \<and>
             adds (width s) (height s) (wall_pair (width s) (height s) a b d) (walls s) g"
proof -
  let ?w = "width s" and ?h = "height s"
  obtain dx dy where o: "get_direction_offset d = Some (dx, dy)"
    using d by (auto simp: get_direction_offset_simps)
  have d0: "0 \<le> d" "0 \<le> (d + 2) mod 4" using d by auto
  have ib: "0 \<le> a \<and> a < ?w \<and> 0 \<le> b \<and> b < ?h" using i by (simp add: inside_def)
  from grid_or_adds[OF sh i, of "nat d"] obtain g1 where
    1: "grid_or (walls s) a b (push_bit (nat d) 1) = Some g1" "adds ?w ?h {((a, b), nat d)} (walls s) g1"
    by blast
  show ?thesis
  proof (cases "inside ?w ?h (a + dx, b + dy)")
    case False
    then have "\<not> (0 \<le> a + dx \<and> a + dx < ?w \<and> 0 \<le> b + dy \<and> b + dy < ?h)"
      by (simp add: inside_def)
    then have "set_wall a b d s = Some (s\<lparr>walls := g1\<rparr>)"
      using ib d0 o 1(1) by (auto simp: set_wall_def get_direction_bit_def Let_def)
    moreover have "wall_pair ?w ?h a b d = {((a, b), nat d)}"
      using False o by (simp add: wall_pair_def)
    ultimately show ?thesis using 1(2) by auto
  next
    case True
    then have t: "0 \<le> a + dx \<and> a + dx < ?w \<and> 0 \<le> b + dy \<and> b + dy < ?h"
      by (simp add: inside_def)
    from grid_or_adds[OF adds_shape[OF 1(2)] True, of "nat ((d + 2) mod 4)"] obtain g2 where
      2: "grid_or g1 (a + dx) (b + dy) (push_bit (nat ((d + 2) mod 4)) 1) = Some g2"
         "adds ?w ?h {((a + dx, b + dy), nat ((d + 2) mod 4))} g1 g2"
      by blast
    have "set_wall a b d s = Some (s\<lparr>walls := g2\<rparr>)"
      using ib d0 o 1(1) 2(1) t by (simp add: set_wall_def get_direction_bit_def Let_def)
    moreover have "wall_pair ?w ?h a b d = {((a, b), nat d)} \<union> {((a + dx, b + dy), nat ((d + 2) mod 4))}"
      using True o by (auto simp: wall_pair_def)
    ultimately show ?thesis using adds_trans[OF 1(2) 2(2)] by auto
  qed
qed

lemma wall_pair_cases:
  "wall_pair w h a b 0 = {((a, b), 0)} \<union> (if inside w h (a, b + 1) then {((a, b + 1), 2)} else {})"
  "wall_pair w h a b 1 = {((a, b), 1)} \<union> (if inside w h (a + 1, b) then {((a + 1, b), 3)} else {})"
  "wall_pair w h a b 2 = {((a, b), 2)} \<union> (if inside w h (a, b - 1) then {((a, b - 1), 0)} else {})"
  "wall_pair w h a b 3 = {((a, b), 3)} \<union> (if inside w h (a - 1, b) then {((a - 1, b), 1)} else {})"
  by (simp_all add: wall_pair_def get_direction_offset_simps)

lemma wall_sym_adds:
  assumes "wall_sym w h g" "adds w h (wall_pair w h a b d) g g'" "d \<in> {0, 1, 2, 3}"
  shows "wall_sym w h g'"
proof -
  have b: "\<And>c n. inside w h c \<Longrightarrow> bit (cell g' c) n = (bit (cell g c) n \<or> (c, n) \<in> wall_pair w h a b d)"
    using assms(2) unfolding adds_def by blast
  have s1: "\<And>x y. inside w h (x, y) \<Longrightarrow> inside w h (x, y + 1) \<Longrightarrow>
              bit (cell g (x, y)) 0 = bit (cell g (x, y + 1)) 2"
    and s2: "\<And>x y. inside w h (x, y) \<Longrightarrow> inside w h (x + 1, y) \<Longrightarrow>
              bit (cell g (x, y)) 1 = bit (cell g (x + 1, y)) 3"
    using assms(1) by (auto simp: wall_sym_def)
  note s2' = s2[unfolded One_nat_def]
  from assms(3) consider "d = 0" | "d = 1" | "d = 2" | "d = 3" by auto
  then show ?thesis
  proof cases
    case 1
    show ?thesis unfolding wall_sym_def
      by (intro allI conjI impI; elim conjE) (auto simp: b s1 s2 s2' 1 wall_pair_cases)
  next
    case 2
    show ?thesis unfolding wall_sym_def
      by (intro allI conjI impI; elim conjE) (auto simp: b s1 s2 s2' 2 wall_pair_cases)
  next
    case 3
    show ?thesis unfolding wall_sym_def
      by (intro allI conjI impI; elim conjE) (auto simp: b s1 s2 s2' 3 wall_pair_cases)
  next
    case 4
    show ?thesis unfolding wall_sym_def
      by (intro allI conjI impI; elim conjE) (auto simp: b s1 s2 s2' 4 wall_pair_cases)
  qed
qed

lemma wall_sym_boundary:
  assumes "\<forall>c n. inside w h c \<longrightarrow> (bit (cell g c) n \<longleftrightarrow> (c, n) \<in> boundary_bits w h)"
  shows "wall_sym w h g"
  unfolding wall_sym_def
  by (intro allI conjI impI; elim conjE) (auto simp: assms boundary_bits_def inside_def)

lemma set_wall_keeps:
  assumes "shape (width s) (height s) (walls s)" "wall_sym (width s) (height s) (walls s)"
    "inside (width s) (height s) (a, b)" "d \<in> {0, 1, 2, 3}"
  shows "\<exists>s'. set_wall a b d s = Some s' \<and> width s' = width s \<and> height s' = height s \<and>
           shape (width s) (height s) (walls s') \<and> wall_sym (width s) (height s) (walls s')"
proof -
  from set_wall_adds[OF assms(1,3,4)] obtain g where
    g: "set_wall a b d s = Some (s\<lparr>walls := g\<rparr>)"
       "adds (width s) (height s) (wall_pair (width s) (height s) a b d) (walls s) g" by blast
  from wall_sym_adds[OF assms(2) g(2) assms(4)] adds_shape[OF g(2)] g(1)
  show ?thesis by simp
qed

lemma set_walls_keep:
  assumes "shape (width s) (height s) (walls s)" "wall_sym (width s) (height s) (walls s)"
    "\<forall>(a, b, d) \<in> set calls. inside (width s) (height s) (a, b) \<and> d \<in> {0, 1, 2, 3}"
  shows "\<exists>s'. for_each calls (\<lambda>(a, b, d). set_wall a b d) s = Some s' \<and>
           width s' = width s \<and> height s' = height s \<and>
           shape (width s) (height s) (walls s') \<and> wall_sym (width s) (height s) (walls s')"
  using assms
proof (induction calls arbitrary: s)
  case Nil
  then show ?case by simp
next
  case (Cons c calls)
  obtain a b d where c: "c = (a, b, d)" by (cases c)
  from Cons.prems(3) c have i: "inside (width s) (height s) (a, b)" "d \<in> {0, 1, 2, 3}"
    by auto
  from set_wall_keeps[OF Cons.prems(1,2) i] obtain s1 where
    1: "set_wall a b d s = Some s1" "width s1 = width s" "height s1 = height s"
       "shape (width s) (height s) (walls s1)" "wall_sym (width s) (height s) (walls s1)"
    by blast
  have "\<exists>s'. for_each calls (\<lambda>(a, b, d). set_wall a b d) s1 = Some s' \<and>
           width s' = width s1 \<and> height s' = height s1 \<and>
           shape (width s1) (height s1) (walls s') \<and> wall_sym (width s1) (height s1) (walls s')"
    using 1 Cons.prems(3) by (intro Cons.IH) auto
  then show ?case using 1 c by auto
qed

lemma wall_sym_is_wall:
  assumes sh: "shape (width s) (height s) (walls s)" and sy: "wall_sym (width s) (height s) (walls s)"
    and i: "inside (width s) (height s) (a, b)" and d: "d \<in> {0, 1, 2, 3}"
    and o: "get_direction_offset d = Some (dx, dy)"
    and n: "inside (width s) (height s) (a + dx, b + dy)"
  shows "is_wall s (a + dx) (b + dy) ((d + 2) mod 4) = is_wall s a b d"
proof -
  have d0: "0 \<le> d" "0 \<le> (d + 2) mod 4" using d by auto
  have s1: "\<And>x y. inside (width s) (height s) (x, y) \<Longrightarrow> inside (width s) (height s) (x, y + 1) \<Longrightarrow>
              bit (cell (walls s) (x, y)) 0 = bit (cell (walls s) (x, y + 1)) 2"
    and s2: "\<And>x y. inside (width s) (height s) (x, y) \<Longrightarrow> inside (width s) (height s) (x + 1, y) \<Longrightarrow>
              bit (cell (walls s) (x, y)) 1 = bit (cell (walls s) (x + 1, y)) 3"
    using sy by (auto simp: wall_sym_def)
  have "bit (cell (walls s) (a + dx, b + dy)) (nat ((d + 2) mod 4)) = bit (cell (walls s) (a, b)) (nat d)"
  proof -
    from d consider "d = 0" | "d = 1" | "d = 2" | "d = 3" by auto
    then show ?thesis
    proof cases
      case 1 with o i n s1[of a b] show ?thesis by (simp add: get_direction_offset_simps)
    next
      case 2 with o i n s2[of a b] show ?thesis by (simp add: get_direction_offset_simps)
    next
      case 3 with o i n s1[of a "b - 1"] show ?thesis
        by (auto simp: get_direction_offset_simps)
    next
      case 4 with o i n s2[of "a - 1" b] show ?thesis
        by (auto simp: get_direction_offset_simps)
    qed
  qed
  then show ?thesis
    by (simp add: is_wall_inside[OF sh i d0(1)] is_wall_inside[OF sh n d0(2)])
qed

lemma is_wall_total:
  assumes "shape (width s) (height s) (walls s)" "0 \<le> d"
  shows "\<exists>v. is_wall s a b d = Some v"
  using is_wall_inside[OF assms(1) _ assms(2), of a b] is_wall_outside[of s a b d] by blast

text \<open>
  C2. Let \<open>s0\<close> be the controller the constructor builds for \<open>w \<ge> 1\<close> and \<open>h \<ge> 1\<close>, and let
  \<open>calls\<close> be any list of \<open>set_wall\<close> arguments with the cell inside the grid and the direction
  from 0 to 3. Then the calls, made in order from \<open>s0\<close>, all return; and in the controller
  they leave, for every cell inside the grid and every direction whose neighbour (by the
  direction's offset) is inside the grid as well, \<open>is_wall\<close> at the cell and direction returns
  the same truth value as \<open>is_wall\<close> at the neighbour and the opposite direction
  \<open>(d + 2) mod 4\<close>. In particular the single call \<open>set_wall 0 0 1\<close> (east of (0,0)) makes
  \<open>is_wall\<close> true at (0,0) to the east (1) and at (1,0) to the west (3).
\<close>

theorem wall_symmetry:
  assumes "1 \<le> w" and "1 \<le> h" and "init w h = Some s0"
    and "\<forall>(a, b, d) \<in> set calls. 0 \<le> a \<and> a < w \<and> 0 \<le> b \<and> b < h \<and> d \<in> {0, 1, 2, 3}"
  shows "(\<exists>s. for_each calls (\<lambda>(a, b, d). set_wall a b d) s0 = Some s \<and>
            (\<forall>a b d dx dy. 0 \<le> a \<and> a < w \<and> 0 \<le> b \<and> b < h \<longrightarrow> d \<in> {0, 1, 2, 3} \<longrightarrow>
                get_direction_offset d = Some (dx, dy) \<longrightarrow>
                0 \<le> a + dx \<and> a + dx < w \<and> 0 \<le> b + dy \<and> b + dy < h \<longrightarrow>
                (\<exists>v. is_wall s a b d = Some v \<and>
                     is_wall s (a + dx) (b + dy) ((d + 2) mod 4) = Some v))) \<and>
         (\<exists>s. set_wall 0 0 1 s0 = Some s \<and> is_wall s 0 0 1 = Some True \<and>
              is_wall s 1 0 3 = Some True)"
proof -
  from init_walls[OF assms(1,2)] assms(3) have s0: "width s0 = w" "height s0 = h"
    "shape w h (walls s0)"
    "\<forall>c n. inside w h c \<longrightarrow> (bit (cell (walls s0) c) n \<longleftrightarrow> (c, n) \<in> boundary_bits w h)"
    by auto
  have sy0: "wall_sym w h (walls s0)" using s0(4) by (rule wall_sym_boundary)
  have c: "\<forall>(a, b, d) \<in> set calls. inside (width s0) (height s0) (a, b) \<and> d \<in> {0, 1, 2, 3}"
    using assms(4) by (auto simp: inside_def s0)
  from set_walls_keep[of s0 calls] s0 sy0 c obtain s where
    s: "for_each calls (\<lambda>(a, b, d). set_wall a b d) s0 = Some s" "width s = w" "height s = h"
       "shape w h (walls s)" "wall_sym w h (walls s)"
    by auto
  have sym: "\<exists>v. is_wall s a b d = Some v \<and> is_wall s (a + dx) (b + dy) ((d + 2) mod 4) = Some v"
    if "0 \<le> a \<and> a < w \<and> 0 \<le> b \<and> b < h" "d \<in> {0, 1, 2, 3}" "get_direction_offset d = Some (dx, dy)"
      "0 \<le> a + dx \<and> a + dx < w \<and> 0 \<le> b + dy \<and> b + dy < h" for a b d dx dy
  proof -
    have i: "inside (width s) (height s) (a, b)" "inside (width s) (height s) (a + dx, b + dy)"
      using that s(2,3) by (auto simp: inside_def)
    have sh: "shape (width s) (height s) (walls s)" "wall_sym (width s) (height s) (walls s)"
      using s by auto
    have "0 \<le> d" using that(2) by auto
    from is_wall_total[OF sh(1) this, of a b] wall_sym_is_wall[OF sh i(1) that(2,3) i(2)]
    show ?thesis by auto
  qed
  have i00: "inside (width s0) (height s0) (0, 0)" using assms(1,2) s0 by (simp add: inside_def)
  have sh0: "shape (width s0) (height s0) (walls s0)" using s0 by simp
  from set_wall_adds[OF sh0 i00, of 1] obtain g where
    g: "set_wall 0 0 1 s0 = Some (s0\<lparr>walls := g\<rparr>)"
       "adds w h (wall_pair w h 0 0 1) (walls s0) g"
    using s0 by auto
  let ?s = "s0\<lparr>walls := g\<rparr>"
  have shg: "shape (width ?s) (height ?s) (walls ?s)" using adds_shape[OF g(2)] s0 by simp
  have bits: "\<And>c n. inside w h c \<Longrightarrow> (c, n) \<in> wall_pair w h 0 0 1 \<Longrightarrow> bit (cell g c) n"
    using g(2) unfolding adds_def by blast
  have e: "is_wall ?s 0 0 1 = Some True"
    using is_wall_inside[OF shg, of 0 0 1] i00 bits[of "(0, 0)" 1] s0
    by (simp add: wall_pair_cases inside_def)
  have "is_wall ?s 1 0 3 = Some True"
  proof (cases "inside w h (1, 0)")
    case True
    then show ?thesis
      using is_wall_inside[OF shg, of 1 0 3] bits[of "(1, 0)" 3] s0
      by (simp add: wall_pair_cases)
  next
    case False
    then show ?thesis using is_wall_outside[of ?s 1 0 3] s0 by simp
  qed
  with e g(1) have "\<exists>s. set_wall 0 0 1 s0 = Some s \<and> is_wall s 0 0 1 = Some True \<and>
              is_wall s 1 0 3 = Some True" by blast
  moreover have "\<exists>s. for_each calls (\<lambda>(a, b, d). set_wall a b d) s0 = Some s \<and>
            (\<forall>a b d dx dy. 0 \<le> a \<and> a < w \<and> 0 \<le> b \<and> b < h \<longrightarrow> d \<in> {0, 1, 2, 3} \<longrightarrow>
                get_direction_offset d = Some (dx, dy) \<longrightarrow>
                0 \<le> a + dx \<and> a + dx < w \<and> 0 \<le> b + dy \<and> b + dy < h \<longrightarrow>
                (\<exists>v. is_wall s a b d = Some v \<and>
                     is_wall s (a + dx) (b + dy) ((d + 2) mod 4) = Some v))"
    using s(1) sym by blast
  ultimately show ?thesis by blast
qed

theorem wall_symmetry_witness:
  "init 3 3 = Some fresh_3x3 \<and>
   (\<exists>s. for_each [(0, 0, 1), (1, 1, 0)] (\<lambda>(a, b, d). set_wall a b d) fresh_3x3 = Some s \<and>
        (\<exists>v. is_wall s 0 0 1 = Some v \<and> is_wall s 1 0 3 = Some v) \<and>
        (\<exists>v. is_wall s 1 1 0 = Some v \<and> is_wall s 1 2 2 = Some v) \<and>
        (\<exists>v. is_wall s 2 1 3 = Some v \<and> is_wall s 1 1 1 = Some v))"
proof -
  have "\<exists>s. for_each [(0, 0, 1), (1, 1, 0)] (\<lambda>(a, b, d). set_wall a b d) fresh_3x3 = Some s \<and>
            (\<forall>a b d dx dy. 0 \<le> a \<and> a < 3 \<and> 0 \<le> b \<and> b < 3 \<longrightarrow> d \<in> {0, 1, 2, 3} \<longrightarrow>
                get_direction_offset d = Some (dx, dy) \<longrightarrow>
                0 \<le> a + dx \<and> a + dx < 3 \<and> 0 \<le> b + dy \<and> b + dy < 3 \<longrightarrow>
                (\<exists>v. is_wall s a b d = Some v \<and>
                     is_wall s (a + dx) (b + dy) ((d + 2) mod 4) = Some v))"
    using wall_symmetry[of 3 3 fresh_3x3 "[(0, 0, 1), (1, 1, 0)]"] init_3x3 by simp
  then obtain s where
    s: "for_each [(0, 0, 1), (1, 1, 0)] (\<lambda>(a, b, d). set_wall a b d) fresh_3x3 = Some s"
    and sym: "\<And>a b d dx dy. 0 \<le> a \<and> a < 3 \<and> 0 \<le> b \<and> b < 3 \<Longrightarrow> d \<in> {0, 1, 2, 3} \<Longrightarrow>
                get_direction_offset d = Some (dx, dy) \<Longrightarrow>
                0 \<le> a + dx \<and> a + dx < 3 \<and> 0 \<le> b + dy \<and> b + dy < 3 \<Longrightarrow>
                (\<exists>v. is_wall s a b d = Some v \<and>
                     is_wall s (a + dx) (b + dy) ((d + 2) mod 4) = Some v)"
    by blast
  from sym[of 0 0 1 1 0] sym[of 1 1 0 0 1] sym[of 2 1 3 "-1" 0] s init_3x3
  show ?thesis by (simp add: get_direction_offset_simps)
qed

section \<open>Reset handling\<close>

lemma reset_fresh_3x3: "reset fresh_3x3 = Some ([AckReset], fresh_3x3)"
  by code_simp

lemma reset_total:
  assumes "1 \<le> width s" "1 \<le> height s"
  shows "\<exists>g. reset s = Some ([AckReset],
             s\<lparr>pos_x := 0, pos_y := 0, direction := 0, phase := Explore,
               visited := {(0, 0)}, walls := g,
               goals := center_goals (width s) (height s)\<rparr>) \<and>
           initialize_boundaries (width s) (height s) (new_grid (width s) (height s) 0) = Some g"
proof -
  from initialize_boundaries_adds[OF assms shape_new_grid, of "0::int"]
  obtain g where "initialize_boundaries (width s) (height s) (new_grid (width s) (height s) 0) = Some g"
    by blast
  then show ?thesis by (simp add: reset_def)
qed

text \<open>What holds of the reset handling: a second reset changes nothing.\<close>

lemma reset_idempotent:
  assumes "reset s = Some (cs, s1)"
  shows "reset s1 = Some (cs, s1)"
  using assms by (auto simp: reset_def split: option.splits)

text \<open>
  After a reset every field but \<open>flood_values\<close> is the one the constructor sets.
\<close>

lemma reset_fresh_but_flood_values:
  assumes "reset s = Some (cs, s1)"
  shows "init (width s) (height s) =
           Some (s1\<lparr>flood_values := new_grid (width s) (height s) 0\<rparr>)"
  using assms by (auto simp: reset_def init_def split: option.splits)

lemma first_pass_3x3:
  "cycle ft 1 at_start fresh_3x3 =
     Some ([MoveForward], Continue (flooded_3x3\<lparr>pos_y := 1, visited := {(0, 0), (0, 1)}\<rparr>))"
  by code_simp

lemma reset_after_first_pass_3x3:
  "cycle ft 2 reset_signal (flooded_3x3\<lparr>pos_y := 1, visited := {(0, 0), (0, 1)}\<rparr>) =
     Some ([AckReset], Continue flooded_3x3)"
  by code_simp

text \<open>
  The claim as stated fails for the flood-value map. The constructor's controller for a
  3 by 3 maze makes one pass from the start cell and the next pass sees the reset signal.
  The reset handling leaves the flood values of the first pass in place, so the controller
  is \<open>flooded_3x3\<close> and not the constructor's \<open>fresh_3x3\<close>, whose flood values are all 0.
\<close>

theorem reset_not_fresh_counterexample:
  "init 3 3 = Some fresh_3x3 \<and>
   run exact_tests [at_start, reset_signal] 0 fresh_3x3 =
     Some ([MoveForward, AckReset], Running 2 flooded_3x3) \<and>
   flood_values flooded_3x3 = [[2, 1, 2], [1, 0, 1], [2, 1, 2]] \<and>
   flood_values fresh_3x3 = [[0, 0, 0], [0, 0, 0], [0, 0, 0]] \<and>
   flooded_3x3 \<noteq> fresh_3x3"
proof -
  have "run exact_tests [at_start, reset_signal] 0 fresh_3x3 =
     Some ([MoveForward, AckReset], Running 2 flooded_3x3)"
    by (simp add: first_pass_3x3 reset_after_first_pass_3x3)
  moreover have "flood_values flooded_3x3 = [[2, 1, 2], [1, 0, 1], [2, 1, 2]]"
    "flood_values fresh_3x3 = [[0, 0, 0], [0, 0, 0], [0, 0, 0]]"
    by (simp_all add: flooded_3x3_def fresh_3x3_def)
  moreover from this have "flooded_3x3 \<noteq> fresh_3x3" by auto
  ultimately show ?thesis using init_3x3 by simp
qed

section \<open>The step ceiling\<close>

lemma reset_pass_3x3: "cycle ft n reset_signal fresh_3x3 = Some ([AckReset], Continue fresh_3x3)"
  by (simp add: cycle_def reset_signal_def reset_fresh_3x3)

lemma run_resets:
  "run ft (replicate n reset_signal) k fresh_3x3 =
     Some (replicate n AckReset, Running (k + int n) fresh_3x3)"
  by (induction n arbitrary: k) (simp_all add: reset_pass_3x3)

text \<open>
  C7 on the code. When every pass sees the reset signal, the loop is still running after
  \<open>n\<close> passes, for every \<open>n\<close>, with the step count \<open>n\<close>: the reset handling ends the pass
  before the test of the step count at the end of the loop body is reached.
\<close>

theorem step_ceiling_not_reached_on_reset:
  "run ft (replicate n reset_signal) 0 fresh_3x3 =
     Some (replicate n AckReset, Running (int n) fresh_3x3) \<and>
   run ft (replicate 10001 reset_signal) 0 fresh_3x3 =
     Some (replicate 10001 AckReset, Running 10001 fresh_3x3)"
  using run_resets[of ft n 0] run_resets[of ft 10001 0] by simp

section \<open>Invariants of the flood fill\<close>

lemma range_py_4: "range_py 4 = [0, 1, 2, 3]"
  by (simp add: range_py_def upto.simps)

lemma hop_dir_neighbour:
  assumes "get_direction_offset d = Some (dx, dy)" "hop_dir s (a, b) d c'"
  shows "c' = (a + dx, b + dy)"
  using assms by (auto simp: hop_dir_def prod_eq_iff)

lemma hop_dir_neq: "d \<in> {0, 1, 2, 3} \<Longrightarrow> hop_dir s c d c' \<Longrightarrow> c' \<noteq> c"
  by (auto simp: hop_dir_def get_direction_offset_simps)

text \<open>What one direction of the inner loop does, for a cell inside the grid.\<close>

lemma relax_spec:
  assumes w: "shape (width s) (height s) (walls s)" and f: "shape (width s) (height s) fv"
    and i: "ins s (a, b)" and d: "d \<in> {0, 1, 2, 3}"
    and o: "get_direction_offset d = Some (dx, dy)"
  shows "relax s a b cur d (fv, q) =
           Some (if hop_dir s (a, b) d (a + dx, b + dy) \<and> cur + 1 < cell fv (a + dx, b + dy)
                 then (gupd fv (a + dx, b + dy) (cur + 1), q @ [(a + dx, b + dy)])
                 else (fv, q))"
proof -
  have d0: "0 \<le> d" using d by auto
  note iw = is_wall_inside[OF w i d0]
  show ?thesis
  proof (cases "bit (cell (walls s) (a, b)) (nat d)")
    case True
    then show ?thesis by (simp add: relax_def iw hop_dir_def)
  next
    case False
    note nw = this
    show ?thesis
    proof (cases "ins s (a + dx, b + dy)")
      case False
      then have "\<not> (0 \<le> a + dx \<and> a + dx < width s \<and> 0 \<le> b + dy \<and> b + dy < height s)"
        by (simp add: inside_def)
      then show ?thesis using nw False by (auto simp: relax_def iw o hop_dir_def Let_def)
    next
      case True
      then have t: "0 \<le> a + dx \<and> a + dx < width s \<and> 0 \<le> b + dy \<and> b + dy < height s"
        by (simp add: inside_def)
      have h: "hop_dir s (a, b) d (a + dx, b + dy)"
        using nw True i o by (simp add: hop_dir_def iw)
      show ?thesis
        using nw t h
        by (simp add: relax_def iw o Let_def grid_get_inside[OF f True] grid_set_inside[OF f True])
    qed
  qed
qed

lemma hop_ins: "hop s c c' \<Longrightarrow> ins s c \<and> ins s c'"
  by (auto simp: hop_def hop_dir_def)

lemma path_nonempty: "path s p \<Longrightarrow> p \<noteq> []"
  by auto

lemma path_snoc: "path s p \<Longrightarrow> hop s (last p) c \<Longrightarrow> path s (p @ [c])"
  by (induction s p rule: path.induct) (auto dest: hop_ins)

lemma inner_step:
  assumes w: "shape (width s) (height s) (walls s)"
    and inv: "inner_inv s (a, b) cur D fv q"
    and d: "d \<in> {0, 1, 2, 3}"
  shows "\<exists>fv' q'. relax s a b cur d (fv, q) = Some (fv', q') \<and>
           inner_inv s (a, b) cur (insert d D) fv' q'"
proof -
  let ?c = "(a, b)"
  obtain dx dy where o: "get_direction_offset d = Some (dx, dy)"
    using d by (auto simp: get_direction_offset_simps)
  let ?n = "(a + dx, b + dy)"
  from inv have f: "shape (width s) (height s) fv" and qi: "\<forall>c \<in> set q. ins s c"
    and so: "sound s fv" and g0: "\<forall>g \<in> set (goals s). ins s g \<and> cell fv g = 0"
    and re: "\<And>c'. ins s c' \<Longrightarrow> c' \<noteq> ?c \<Longrightarrow> cell fv c' \<noteq> \<infinity> \<Longrightarrow> c' \<notin> set q \<Longrightarrow> relaxed s fv c'"
    and i: "ins s ?c" and cu: "cell fv ?c = cur"
    and dn: "\<And>d' c'. d' \<in> D \<Longrightarrow> hop_dir s ?c d' c' \<Longrightarrow> cell fv c' \<le> cur + 1"
    unfolding inner_inv_def by blast+
  note rs = relax_spec[OF w f i d o, of cur q]
  show ?thesis
  proof (cases "hop_dir s ?c d ?n \<and> cur + 1 < cell fv ?n")
    case False
    have "cell fv c' \<le> cur + 1" if "hop_dir s ?c d c'" for c'
    proof -
      from hop_dir_neighbour[OF o that] have "c' = ?n" .
      with that False show ?thesis by auto
    qed
    with dn have "\<forall>d' \<in> insert d D. \<forall>c'. hop_dir s ?c d' c' \<longrightarrow> cell fv c' \<le> cur + 1"
      by blast
    with inv have "inner_inv s ?c cur (insert d D) fv q"
      unfolding inner_inv_def by blast
    with rs False show ?thesis by auto
  next
    case True
    then have h: "hop_dir s ?c d ?n" and lt: "cur + 1 < cell fv ?n" by auto
    let ?fv = "gupd fv ?n (cur + 1)"
    have ni: "ins s ?n" using h by (simp add: hop_dir_def)
    have nc: "?n \<noteq> ?c" using hop_dir_neq[OF d h] .
    obtain k where k: "cur = enat k" using lt by (cases cur) auto
    have cellv: "\<And>c'. ins s c' \<Longrightarrow> cell ?fv c' = (if c' = ?n then cur + 1 else cell fv c')"
      using cell_gupd[OF f ni] by blast
    have mono: "\<And>c'. ins s c' \<Longrightarrow> cell ?fv c' \<le> cell fv c'"
      using cellv lt by (auto simp: less_imp_le)
    have 1: "shape (width s) (height s) ?fv" using f by (rule shape_gupd)
    have 2: "\<forall>c \<in> set (q @ [?n]). ins s c" using qi ni by auto
    have 3: "sound s ?fv"
      unfolding sound_def
    proof (intro allI impI)
      fix c' k'
      assume ci: "ins s c'" and cv: "cell ?fv c' = enat k'"
      show "\<exists>p. path s p \<and> hd p \<in> set (goals s) \<and> last p = c' \<and> length p = Suc k'"
      proof (cases "c' = ?n")
        case False
        with cellv[OF ci] cv have "cell fv c' = enat k'" by simp
        with so ci show ?thesis unfolding sound_def by blast
      next
        case True
        with cellv[OF ci] cv k have k': "k' = Suc k" by (simp add: one_enat_def)
        from so i cu k obtain p where p: "path s p" "hd p \<in> set (goals s)" "last p = ?c"
          "length p = Suc k" unfolding sound_def by blast
        have "hop s (last p) ?n" using h d p(3) unfolding hop_def by auto
        from path_snoc[OF p(1) this] have "path s (p @ [?n])" .
        moreover have "hd (p @ [?n]) \<in> set (goals s)" using p(2) path_nonempty[OF p(1)] by simp
        ultimately show ?thesis using True k' p(4)
          by (intro exI[of _ "p @ [?n]"]) simp
      qed
    qed
    have 4: "\<forall>g \<in> set (goals s). ins s g \<and> cell ?fv g = 0"
    proof
      fix g assume "g \<in> set (goals s)"
      with g0 have gg: "ins s g" "cell fv g = 0" by auto
      with lt have "g \<noteq> ?n" by auto
      with cellv[OF gg(1)] gg show "ins s g \<and> cell ?fv g = 0" by simp
    qed
    have 5: "relaxed s ?fv c'"
      if "ins s c'" "c' \<noteq> ?c" "cell ?fv c' \<noteq> \<infinity>" "c' \<notin> set (q @ [?n])" for c'
    proof -
      from that(4) have cn: "c' \<noteq> ?n" "c' \<notin> set q" by auto
      with cellv[OF that(1)] have e: "cell ?fv c' = cell fv c'" by simp
      with that have r: "relaxed s fv c'" using re cn by auto
      show ?thesis unfolding relaxed_def
      proof (intro allI impI)
        fix m assume hm: "hop s c' m"
        then have "ins s m" by (auto dest: hop_ins)
        from mono[OF this] have "cell ?fv m \<le> cell fv m" .
        also have "\<dots> \<le> cell fv c' + 1" using r hm unfolding relaxed_def by blast
        finally show "cell ?fv m \<le> cell ?fv c' + 1" using e by simp
      qed
    qed
    have 6: "cell ?fv ?c = cur" using cellv[OF i] nc cu by auto
    have 7: "cell ?fv c' \<le> cur + 1" if "d' \<in> insert d D" "hop_dir s ?c d' c'" for d' c'
    proof (cases "c' = ?n")
      case True
      then show ?thesis using cellv[OF ni] by simp
    next
      case False
      have "d' \<noteq> d" using hop_dir_neighbour[OF o, of s a b c'] that(2) False by auto
      with that(1) have "d' \<in> D" by simp
      from dn[OF this that(2)] have "cell fv c' \<le> cur + 1" .
      moreover have "ins s c'" using that(2) by (simp add: hop_dir_def)
      ultimately show ?thesis using mono[of c'] by (meson order_trans)
    qed
    have "inner_inv s ?c cur (insert d D) ?fv (q @ [?n])"
      unfolding inner_inv_def using 1 2 3 4 5 6 7 i by blast
    with rs True show ?thesis by auto
  qed
qed

lemma inner_loop:
  assumes w: "shape (width s) (height s) (walls s)"
    and ds: "set ds \<subseteq> {0, 1, 2, 3}"
    and inv: "inner_inv s (a, b) cur D fv q"
  shows "\<exists>fv' q'. for_each ds (relax s a b cur) (fv, q) = Some (fv', q') \<and>
           inner_inv s (a, b) cur (D \<union> set ds) fv' q'"
  using ds inv
proof (induction ds arbitrary: D fv q)
  case Nil
  then show ?case by simp
next
  case (Cons d ds)
  from Cons.prems(1) have d: "d \<in> {0, 1, 2, 3}" by auto
  from inner_step[OF w Cons.prems(2) d] obtain fv1 q1 where
    1: "relax s a b cur d (fv, q) = Some (fv1, q1)" "inner_inv s (a, b) cur (insert d D) fv1 q1"
    by blast
  from Cons.IH[OF _ 1(2)] Cons.prems(1) obtain fv2 q2 where
    2: "for_each ds (relax s a b cur) (fv1, q1) = Some (fv2, q2)"
       "inner_inv s (a, b) cur (insert d D \<union> set ds) fv2 q2"
    by auto
  from 1(1) 2 show ?case by simp
qed

lemma bfs_step:
  assumes w: "shape (width s) (height s) (walls s)"
    and inv: "bfs_inv s fv ((a, b) # q)"
  shows "\<exists>cur fv' q'. grid_get fv a b = Some cur \<and>
           for_each (range_py 4) (relax s a b cur) (fv, q) = Some (fv', q') \<and>
           bfs_inv s fv' q'"
proof -
  let ?c = "(a, b)"
  from inv have f: "shape (width s) (height s) fv" and i: "ins s ?c"
    unfolding bfs_inv_def by auto
  have g: "grid_get fv a b = Some (cell fv ?c)" using grid_get_inside[OF f i] .
  have "inner_inv s ?c (cell fv ?c) {} fv q"
    using inv unfolding bfs_inv_def inner_inv_def by auto
  from inner_loop[OF w _ this, of "[0, 1, 2, 3]"] obtain fv' q' where
    l: "for_each [0, 1, 2, 3] (relax s a b (cell fv ?c)) (fv, q) = Some (fv', q')"
    and ii: "inner_inv s ?c (cell fv ?c) {0, 1, 2, 3} fv' q'"
    by auto
  have r: "relaxed s fv' ?c"
    using ii unfolding inner_inv_def relaxed_def hop_def by auto
  from ii have re: "\<And>c'. ins s c' \<Longrightarrow> c' \<noteq> ?c \<Longrightarrow> cell fv' c' \<noteq> \<infinity> \<Longrightarrow> c' \<notin> set q' \<Longrightarrow>
      relaxed s fv' c'"
    unfolding inner_inv_def by blast
  have "relaxed s fv' c'" if "ins s c'" "cell fv' c' \<noteq> \<infinity>" "c' \<notin> set q'" for c'
    using that r re by blast
  then have "bfs_inv s fv' q'"
    using ii unfolding inner_inv_def bfs_inv_def by blast
  with g l show ?thesis by (auto simp: range_py_4)
qed

lemma bfs_loop_inv:
  "shape (width s) (height s) (walls s) \<Longrightarrow> bfs_inv s (fst st) (snd st) \<Longrightarrow>
     \<exists>fv'. bfs_loop s st = Some fv' \<and> bfs_inv s fv' []"
proof (induction s st rule: bfs_loop.induct)
  case (1 s fv)
  then show ?case by simp
next
  case (2 s fv a b q)
  from 2(3) have "bfs_inv s fv ((a, b) # q)" by simp
  from bfs_step[OF 2(2) this] obtain cur fv1 q1 where
    s: "grid_get fv a b = Some cur"
       "for_each (range_py 4) (relax s a b cur) (fv, q) = Some (fv1, q1)"
       "bfs_inv s fv1 q1"
    by blast
  from 2(1)[OF s(1,2) 2(2)] s(3) obtain fv' where
    "bfs_loop s (fv1, q1) = Some fv'" "bfs_inv s fv' []" by auto
  with s(1,2) show ?case by simp
qed

text \<open>When every cell with a finite value is relaxed, values grow by at most one along a hop.\<close>

lemma relaxed_path_bound:
  "(\<forall>c. ins s c \<longrightarrow> cell fv c \<noteq> \<infinity> \<longrightarrow> relaxed s fv c) \<Longrightarrow> path s p \<Longrightarrow>
     cell fv (hd p) \<le> enat m \<Longrightarrow> cell fv (last p) \<le> enat (m + (length p - 1))"
proof (induction s p arbitrary: m rule: path.induct)
  case (1 s)
  then show ?case by simp
next
  case (2 s c)
  then show ?case by simp
next
  case (3 s c c' cs)
  from "3.prems"(2) have h: "hop s c c'" and p: "path s (c' # cs)" by auto
  from "3.prems"(3) have fin: "cell fv c \<noteq> \<infinity>" by (cases "cell fv c") simp_all
  from hop_ins[OF h] have "ins s c" by simp
  with "3.prems"(1) fin h have "cell fv c' \<le> cell fv c + 1" unfolding relaxed_def by blast
  also have "\<dots> \<le> enat m + 1" using "3.prems"(3) by (simp add: add_right_mono)
  finally have "cell fv (hd (c' # cs)) \<le> enat (Suc m)" by (simp add: one_enat_def)
  from "3.IH"[OF "3.prems"(1) p this] show ?case by simp
qed

lemma fills_refl: "shape w h g \<Longrightarrow> fills w h {} v g g"
  by (simp add: fills_def)

lemma fills_trans: "fills w h S v g g' \<Longrightarrow> fills w h T v g' g'' \<Longrightarrow> fills w h (S \<union> T) v g g''"
  by (auto simp: fills_def)

lemma fills_shape: "fills w h S v g g' \<Longrightarrow> shape w h g'"
  by (simp add: fills_def)

lemma grid_set_fills:
  assumes "shape w h g" "inside w h (a, b)"
  shows "\<exists>g'. grid_set g a b v = Some g' \<and> fills w h {(a, b)} v g g'"
  using assms by (auto simp: grid_set_inside fills_def shape_gupd cell_gupd)

lemma for_each_fills:
  assumes "\<And>x g. x \<in> set xs \<Longrightarrow> shape w h g \<Longrightarrow> \<exists>g'. body x g = Some g' \<and> fills w h (S x) v g g'"
    and "shape w h g"
  shows "\<exists>g'. for_each xs body g = Some g' \<and> fills w h (\<Union>x\<in>set xs. S x) v g g'"
  using assms
proof (induction xs arbitrary: g)
  case Nil
  then show ?case by (simp add: fills_refl)
next
  case (Cons x xs)
  from Cons.prems(1)[of x g] Cons.prems(2)
  obtain g1 where 1: "body x g = Some g1" "fills w h (S x) v g g1" by auto
  from Cons.IH[of g1] Cons.prems(1) fills_shape[OF 1(2)]
  obtain g2 where 2: "for_each xs body g1 = Some g2" "fills w h (\<Union>x\<in>set xs. S x) v g1 g2"
    by auto
  from fills_trans[OF 1(2) 2(2)] 1(1) 2(1) show ?case by simp
qed

text \<open>The first loops of \<open>floodfill\<close>: every cell is set to \<open>\<infinity>\<close>.\<close>

lemma clear_loop:
  assumes "shape w h (g :: 'a grid)"
  shows "\<exists>g'. for_each (range_py w) (\<lambda>a. for_each (range_py h) (\<lambda>b fv. grid_set fv a b v)) g = Some g' \<and>
           shape w h g' \<and> (\<forall>c. inside w h c \<longrightarrow> cell g' c = v)"
proof -
  have row: "\<exists>g'. for_each (range_py h) (\<lambda>b fv. grid_set fv a b v) g = Some g' \<and>
               fills w h (\<Union>b\<in>set (range_py h). {(a, b)}) v g g'"
    if "a \<in> set (range_py w)" "shape w h g" for a and g :: "'a grid"
  proof (rule for_each_fills)
    fix b and g0 :: "'a grid" assume "b \<in> set (range_py h)" "shape w h g0"
    with that(1) show "\<exists>g'. grid_set g0 a b v = Some g' \<and> fills w h {(a, b)} v g0 g'"
      by (intro grid_set_fills) (auto simp: inside_def set_range_py)
  qed (rule that(2))
  from for_each_fills[of "range_py w" w h _ "\<lambda>a. \<Union>b\<in>set (range_py h). {(a, b)}" v g, OF row assms]
  obtain g' where g': "for_each (range_py w) (\<lambda>a. for_each (range_py h) (\<lambda>b fv. grid_set fv a b v)) g = Some g'"
    "fills w h (\<Union>a\<in>set (range_py w). \<Union>b\<in>set (range_py h). {(a, b)}) v g g'"
    by blast
  have "c \<in> (\<Union>a\<in>set (range_py w). \<Union>b\<in>set (range_py h). {(a, b)})" if "inside w h c" for c
    using that by (cases c) (auto simp: inside_def set_range_py)
  with g' show ?thesis by (auto simp: fills_def)
qed

text \<open>The loop over the goals: each goal is set to 0 and appended to the queue.\<close>

lemma goals_loop:
  assumes "\<forall>g \<in> set gs. inside w h g" "shape w h fv"
  shows "\<exists>fv'. for_each gs
            (\<lambda>(goal_x, goal_y) (fv, q).
                case grid_set fv goal_x goal_y 0 of None \<Rightarrow> None
                | Some fv' \<Rightarrow> Some (fv', q @ [(goal_x, goal_y)]))
            (fv, q) = Some (fv', q @ gs) \<and> fills w h (set gs) 0 fv fv'"
  using assms
proof (induction gs arbitrary: fv q)
  case Nil
  then show ?case by (simp add: fills_refl)
next
  case (Cons g gs)
  obtain a b where g: "g = (a, b)" by (cases g)
  from Cons.prems g have "inside w h (a, b)" by simp
  from grid_set_fills[OF Cons.prems(2) this, of 0] obtain fv1 where
    1: "grid_set fv a b 0 = Some fv1" "fills w h {(a, b)} 0 fv fv1" by blast
  from Cons.IH[of fv1 "q @ [(a, b)]"] Cons.prems(1) fills_shape[OF 1(2)] obtain fv2 where
    2: "for_each gs
            (\<lambda>(goal_x, goal_y) (fv, q).
                case grid_set fv goal_x goal_y 0 of None \<Rightarrow> None
                | Some fv' \<Rightarrow> Some (fv', q @ [(goal_x, goal_y)]))
            (fv1, q @ [(a, b)]) = Some (fv2, (q @ [(a, b)]) @ gs)"
       "fills w h (set gs) 0 fv1 fv2"
    by auto
  from fills_trans[OF 1(2) 2(2)] 1(1) 2(1) g show ?case by simp
qed

lemma floodfill_result:
  assumes w: "shape (width s) (height s) (walls s)"
    and f: "shape (width s) (height s) (flood_values s)"
    and gi: "\<forall>g \<in> set (goals s). ins s g"
  shows "\<exists>fv. floodfill s = Some (s\<lparr>flood_values := fv\<rparr>) \<and> bfs_inv s fv []"
proof -
  let ?w = "width s" and ?h = "height s"
  from clear_loop[OF f, of "\<infinity>"] obtain fv0 where
    0: "for_each (range_py ?w) (\<lambda>a. for_each (range_py ?h) (\<lambda>b fv. grid_set fv a b \<infinity>))
          (flood_values s) = Some fv0"
       "shape ?w ?h fv0" "\<forall>c. ins s c \<longrightarrow> cell fv0 c = \<infinity>"
    by blast
  from goals_loop[OF gi 0(2), of "[]"] obtain fv1 where
    1: "for_each (goals s)
            (\<lambda>(goal_x, goal_y) (fv, q).
                case grid_set fv goal_x goal_y 0 of None \<Rightarrow> None
                | Some fv' \<Rightarrow> Some (fv', q @ [(goal_x, goal_y)]))
            (fv0, []) = Some (fv1, goals s)"
       "fills ?w ?h (set (goals s)) 0 fv0 fv1"
    by auto
  have v: "cell fv1 c = (if c \<in> set (goals s) then 0 else \<infinity>)" if "ins s c" for c
  proof -
    from 1(2) that have "cell fv1 c = (if c \<in> set (goals s) then 0 else cell fv0 c)"
      unfolding fills_def by blast
    moreover from 0(3) that have "cell fv0 c = \<infinity>" by blast
    ultimately show ?thesis by simp
  qed
  have so: "sound s fv1"
    unfolding sound_def
  proof (intro allI impI)
    fix c k assume c: "ins s c" "cell fv1 c = enat k"
    with v[OF c(1)] have "c \<in> set (goals s)" "k = 0"
      by (auto split: if_splits simp: zero_enat_def)
    with c(1) show "\<exists>p. path s p \<and> hd p \<in> set (goals s) \<and> last p = c \<and> length p = Suc k"
      by (intro exI[of _ "[c]"]) simp
  qed
  have "bfs_inv s fv1 (goals s)"
    unfolding bfs_inv_def
  proof (intro conjI)
    show "shape ?w ?h fv1" using 1(2) by (rule fills_shape)
    show "\<forall>c \<in> set (goals s). ins s c" by (rule gi)
    show "sound s fv1" by (rule so)
    show "\<forall>g \<in> set (goals s). ins s g \<and> cell fv1 g = 0" using gi v by auto
    show "\<forall>c. ins s c \<longrightarrow> cell fv1 c \<noteq> \<infinity> \<longrightarrow> c \<notin> set (goals s) \<longrightarrow> relaxed s fv1 c"
      using v by auto
  qed
  from bfs_loop_inv[OF w, of "(fv1, goals s)"] this obtain fv where
    fv: "bfs_loop s (fv1, goals s) = Some fv" "bfs_inv s fv []" by auto
  have "floodfill s = Some (s\<lparr>flood_values := fv\<rparr>)"
    using 0(1) 1(1) fv(1) by (simp add: floodfill_def)
  with fv(2) show ?thesis by (intro exI[of _ fv] conjI)
qed

text \<open>With symmetric walls a hop can be taken backwards, and so can a path.\<close>

lemma hop_sym:
  assumes w: "shape (width s) (height s) (walls s)"
    and sy: "wall_sym (width s) (height s) (walls s)"
    and h: "hop s c c'"
  shows "hop s c' c"
proof -
  obtain a b where c: "c = (a, b)" by (cases c)
  from h obtain d where d: "d \<in> {0, 1, 2, 3}" and hd: "hop_dir s c d c'"
    unfolding hop_def by (rule bexE)
  obtain dx dy where o: "get_direction_offset d = Some (dx, dy)"
    using d by (auto simp: get_direction_offset_simps)
  from hop_dir_neighbour[OF o hd[unfolded c]] have c': "c' = (a + dx, b + dy)" .
  from hd have i: "ins s (a, b)" "ins s (a + dx, b + dy)" and nw: "is_wall s a b d = Some False"
    by (auto simp: hop_dir_def c c')
  from wall_sym_is_wall[OF w sy i(1) d o i(2)] nw
  have 1: "is_wall s (a + dx) (b + dy) ((d + 2) mod 4) = Some False" by simp
  have 2: "get_direction_offset ((d + 2) mod 4) = Some (- dx, - dy)"
    using d o by (auto simp: get_direction_offset_simps)
  have 3: "(d + 2) mod 4 \<in> {0, 1, 2, 3}" using d by auto
  have "hop_dir s c' ((d + 2) mod 4) c"
    using i 1 2 by (simp add: hop_dir_def c c')
  then show ?thesis unfolding hop_def using 3 by (rule bexI)
qed

lemma path_rev:
  "shape (width s) (height s) (walls s) \<Longrightarrow> wall_sym (width s) (height s) (walls s) \<Longrightarrow>
     path s p \<Longrightarrow> path s (rev p)"
proof (induction s p rule: path.induct)
  case (1 s)
  then show ?case by simp
next
  case (2 s c)
  then show ?case by simp
next
  case (3 s c c' cs)
  from "3.prems"(3) have h: "hop s c c'" and p: "path s (c' # cs)" by auto
  from "3.IH"[OF "3.prems"(1,2) p] have r: "path s (rev (c' # cs))" .
  have "hop s (last (rev (c' # cs))) c" using hop_sym[OF "3.prems"(1,2) h] by simp
  from path_snoc[OF r this] show ?case by simp
qed

section \<open>Flood-fill correctness\<close>

lemma goal_path_rev:
  assumes w: "shape (width s) (height s) (walls s)"
    and sy: "wall_sym (width s) (height s) (walls s)"
    and p: "goal_path s c p"
  shows "path s (rev p) \<and> hd (rev p) \<in> set (goals s) \<and> last (rev p) = c \<and>
         length (rev p) = length p"
proof -
  from p have pp: "path s p" "hd p = c" "last p \<in> set (goals s)" by (auto simp: goal_path_def)
  from path_nonempty[OF pp(1)] have ne: "p \<noteq> []" .
  from path_rev[OF w sy pp(1)] pp(2,3) ne show ?thesis
    by (simp add: hd_rev last_rev)
qed

lemma from_goal_rev:
  assumes w: "shape (width s) (height s) (walls s)"
    and sy: "wall_sym (width s) (height s) (walls s)"
    and p: "path s p" "hd p \<in> set (goals s)" "last p = c"
  shows "goal_path s c (rev p)"
proof -
  from path_nonempty[OF p(1)] have ne: "p \<noteq> []" .
  from path_rev[OF w sy p(1)] p(2,3) ne show ?thesis
    by (simp add: goal_path_def hd_rev last_rev)
qed

lemma floodfill_values:
  assumes w: "shape (width s) (height s) (walls s)"
    and sy: "wall_sym (width s) (height s) (walls s)"
    and inv: "bfs_inv s fv []"
    and i: "ins s c"
  shows "(\<forall>p. goal_path s c p \<longrightarrow>
            (\<exists>n. cell fv c = enat n \<and> n \<le> length p - 1 \<and>
                 (\<exists>p'. goal_path s c p' \<and> length p' - 1 = n))) \<and>
         (c \<in> set (goals s) \<longrightarrow> cell fv c = 0) \<and>
         ((\<nexists>p. goal_path s c p) \<longrightarrow> cell fv c = \<infinity>)"
proof (intro conjI allI impI)
  from inv have so: "sound s fv" and g0: "\<forall>g \<in> set (goals s). ins s g \<and> cell fv g = 0"
    and re: "\<forall>c. ins s c \<longrightarrow> cell fv c \<noteq> \<infinity> \<longrightarrow> relaxed s fv c"
    unfolding bfs_inv_def by auto
  have bk: "\<exists>p'. goal_path s c p' \<and> length p' - 1 = n" if "cell fv c = enat n" for n
  proof -
    from so i that obtain q where q: "path s q" "hd q \<in> set (goals s)" "last q = c"
      "length q = Suc n" unfolding sound_def by blast
    from from_goal_rev[OF w sy q(1,2,3)] q(4) show ?thesis
      by (intro exI[of _ "rev q"]) simp
  qed
  {
    fix p assume p: "goal_path s c p"
    from goal_path_rev[OF w sy p] have r: "path s (rev p)" "hd (rev p) \<in> set (goals s)"
      "last (rev p) = c" "length (rev p) = length p" by auto
    from g0 r(2) have "cell fv (hd (rev p)) \<le> enat 0" by (simp add: zero_enat_def)
    from relaxed_path_bound[OF re r(1) this] r(3,4)
    have le: "cell fv c \<le> enat (length p - 1)" by simp
    then obtain n where n: "cell fv c = enat n" by (cases "cell fv c") auto
    with le have "n \<le> length p - 1" by simp
    with n bk[OF n]
    show "\<exists>n. cell fv c = enat n \<and> n \<le> length p - 1 \<and>
               (\<exists>p'. goal_path s c p' \<and> length p' - 1 = n)" by blast
  }
  {
    assume "c \<in> set (goals s)"
    with g0 show "cell fv c = 0" by blast
  }
  {
    assume no: "\<nexists>p. goal_path s c p"
    show "cell fv c = \<infinity>"
    proof (cases "cell fv c")
      case (enat n)
      from bk[OF this] no show ?thesis by blast
    next
      case infinity
      then show ?thesis .
    qed
  }
qed

text \<open>
  C1. Let the wall grid and the flood-value grid of \<open>s\<close> have the shape \<open>width\<close> by \<open>height\<close>
  (as the constructor builds them), let the walls be symmetric (as \<open>set_wall\<close> keeps them)
  and let every goal cell lie inside the grid. Then \<open>floodfill\<close> returns, changing only the
  flood values, and for every cell \<open>(a, b)\<close> inside the grid the new value \<open>v\<close> read at
  \<open>[a][b]\<close> satisfies: whenever a wall-respecting path \<open>p\<close> from the cell to a goal cell exists,
  \<open>v\<close> is the number of hops of such a path and no such path has fewer hops; \<open>v\<close> is 0
  when the cell is a goal cell; and \<open>v\<close> is \<open>\<infinity>\<close> when there is no such path.
\<close>

theorem floodfill_correct:
  assumes "shape (width s) (height s) (walls s)"
    and "wall_sym (width s) (height s) (walls s)"
    and "shape (width s) (height s) (flood_values s)"
    and "\<forall>g \<in> set (goals s). inside (width s) (height s) g"
  shows "\<exists>fv. floodfill s = Some (s\<lparr>flood_values := fv\<rparr>) \<and>
           (\<forall>a b. 0 \<le> a \<and> a < width s \<and> 0 \<le> b \<and> b < height s \<longrightarrow>
              (\<exists>v. grid_get fv a b = Some v \<and>
                 (\<forall>p. goal_path s (a, b) p \<longrightarrow>
                    (\<exists>n. v = enat n \<and> n \<le> length p - 1 \<and>
                         (\<exists>p'. goal_path s (a, b) p' \<and> length p' - 1 = n))) \<and>
                 ((a, b) \<in> set (goals s) \<longrightarrow> v = 0) \<and>
                 ((\<nexists>p. goal_path s (a, b) p) \<longrightarrow> v = \<infinity>)))"
proof -
  from floodfill_result[OF assms(1,3,4)] obtain fv where
    fv: "floodfill s = Some (s\<lparr>flood_values := fv\<rparr>)" "bfs_inv s fv []" by blast
  from fv(2) have sh: "shape (width s) (height s) fv" by (simp add: bfs_inv_def)
  have "\<exists>v. grid_get fv a b = Some v \<and>
                 (\<forall>p. goal_path s (a, b) p \<longrightarrow>
                    (\<exists>n. v = enat n \<and> n \<le> length p - 1 \<and>
                         (\<exists>p'. goal_path s (a, b) p' \<and> length p' - 1 = n))) \<and>
                 ((a, b) \<in> set (goals s) \<longrightarrow> v = 0) \<and>
                 ((\<nexists>p. goal_path s (a, b) p) \<longrightarrow> v = \<infinity>)"
    if "0 \<le> a \<and> a < width s \<and> 0 \<le> b \<and> b < height s" for a b
  proof -
    from that have i: "ins s (a, b)" by (simp add: inside_def)
    from grid_get_inside[OF sh i] floodfill_values[OF assms(1,2) fv(2) i]
    show ?thesis by (intro exI[of _ "cell fv (a, b)"] conjI) simp_all
  qed
  with fv(1) show ?thesis by (intro exI[of _ fv] conjI allI impI)
qed

lemma fresh_3x3_shape:
  "shape (width fresh_3x3) (height fresh_3x3) (walls fresh_3x3)"
  "shape (width fresh_3x3) (height fresh_3x3) (flood_values fresh_3x3)"
  "\<forall>g \<in> set (goals fresh_3x3). inside (width fresh_3x3) (height fresh_3x3) g"
  by (simp_all add: fresh_3x3_def shape_def inside_def)

lemma fresh_3x3_sym: "wall_sym (width fresh_3x3) (height fresh_3x3) (walls fresh_3x3)"
proof -
  from init_walls[of 3 3] obtain g where
    g: "init 3 3 = Some \<lparr>width = 3, height = 3, pos_x = 0, pos_y = 0, direction = 0, walls = g,
                  flood_values = new_grid 3 3 0, goals = center_goals 3 3,
                  phase = Explore, visited = {(0, 0)}\<rparr>"
    and b: "\<forall>c n. inside 3 3 c \<longrightarrow> (bit (cell g c) n \<longleftrightarrow> (c, n) \<in> boundary_bits 3 3)"
    by auto
  from g init_3x3 have "walls fresh_3x3 = g"
    by (simp add: fresh_3x3_def)
  with b have "wall_sym 3 3 (walls fresh_3x3)" by (intro wall_sym_boundary) simp
  then show ?thesis by (simp add: fresh_3x3_def)
qed

lemma fresh_3x3_path: "goal_path fresh_3x3 (0, 0) [(0, 0), (0, 1), (1, 1)]"
  by (simp add: goal_path_def hop_def hop_dir_def inside_def get_direction_offset_simps
      is_wall_def grid_get_def py_get_def py_index_def get_direction_bit_def fresh_3x3_def)

theorem floodfill_correct_witness:
  "goal_path fresh_3x3 (0, 0) [(0, 0), (0, 1), (1, 1)] \<and>
   (\<exists>fv. floodfill fresh_3x3 = Some (fresh_3x3\<lparr>flood_values := fv\<rparr>) \<and>
         grid_get fv 1 1 = Some 0 \<and>
         (\<exists>n. grid_get fv 0 0 = Some (enat n) \<and> n \<le> 2))"
proof -
  from floodfill_correct[OF fresh_3x3_shape(1) fresh_3x3_sym fresh_3x3_shape(2,3)]
  obtain fv where fv: "floodfill fresh_3x3 = Some (fresh_3x3\<lparr>flood_values := fv\<rparr>) \<and>
           (\<forall>a b. 0 \<le> a \<and> a < width fresh_3x3 \<and> 0 \<le> b \<and> b < height fresh_3x3 \<longrightarrow>
              (\<exists>v. grid_get fv a b = Some v \<and>
                 (\<forall>p. goal_path fresh_3x3 (a, b) p \<longrightarrow>
                    (\<exists>n. v = enat n \<and> n \<le> length p - 1 \<and>
                         (\<exists>p'. goal_path fresh_3x3 (a, b) p' \<and> length p' - 1 = n))) \<and>
                 ((a, b) \<in> set (goals fresh_3x3) \<longrightarrow> v = 0) \<and>
                 ((\<nexists>p. goal_path fresh_3x3 (a, b) p) \<longrightarrow> v = \<infinity>)))" ..
  note v = fv[THEN conjunct2, rule_format]
  have b11: "0 \<le> (1::int) \<and> 1 < width fresh_3x3 \<and> 0 \<le> (1::int) \<and> 1 < height fresh_3x3"
    and b00: "0 \<le> (0::int) \<and> 0 < width fresh_3x3 \<and> 0 \<le> (0::int) \<and> 0 < height fresh_3x3"
    and g11: "(1, 1) \<in> set (goals fresh_3x3)"
    by (simp_all add: fresh_3x3_def)
  from v[OF b11] obtain v1 where "grid_get fv 1 1 = Some v1"
    "(1, 1) \<in> set (goals fresh_3x3) \<longrightarrow> v1 = 0" by blast
  with g11 have 1: "grid_get fv 1 1 = Some 0" by simp
  from v[OF b00] obtain v0 where v0: "grid_get fv 0 0 = Some v0"
    "\<forall>p. goal_path fresh_3x3 (0, 0) p \<longrightarrow> (\<exists>n. v0 = enat n \<and> n \<le> length p - 1 \<and>
        (\<exists>p'. goal_path fresh_3x3 (0, 0) p' \<and> length p' - 1 = n))"
    by blast
  have "\<exists>n. v0 = enat n \<and> n \<le> 2"
    using v0(2)[rule_format, OF fresh_3x3_path] by auto
  with v0(1) have "\<exists>n. grid_get fv 0 0 = Some (enat n) \<and> n \<le> 2" by simp
  with fv[THEN conjunct1] 1 fresh_3x3_path show ?thesis by blast
qed

section \<open>Well-formed controllers\<close>

lemma for_each_invariant:
  assumes "\<And>x st. x \<in> set xs \<Longrightarrow> I st \<Longrightarrow> \<exists>st'. body x st = Some st' \<and> I st'"
    and "I st"
  shows "\<exists>st'. for_each xs body st = Some st' \<and> I st'"
  using assms
proof (induction xs arbitrary: st)
  case Nil
  then show ?case by simp
next
  case (Cons x xs)
  from Cons.prems(1)[of x st] Cons.prems(2) obtain st1 where
    1: "body x st = Some st1" "I st1" by auto
  from Cons.IH[of st1] Cons.prems(1) 1(2) obtain st2 where
    "for_each xs body st1 = Some st2" "I st2" by auto
  with 1(1) show ?case by simp
qed

lemma init_well_formed:
  assumes "1 \<le> w" "1 \<le> h"
  shows "\<exists>s. init w h = Some s \<and> well_formed s \<and> width s = w \<and> height s = h"
proof -
  from init_walls[OF assms] obtain g where
    g: "init w h =
            Some \<lparr>width = w, height = h, pos_x = 0, pos_y = 0, direction = 0, walls = g,
                  flood_values = new_grid w h 0, goals = center_goals w h,
                  phase = Explore, visited = {(0, 0)}\<rparr>" "shape w h g"
    by blast
  have "\<forall>c \<in> set (center_goals w h). inside w h c"
    using center_goals_inside[OF assms] by blast
  moreover have "inside w h (0, 0)" using assms by (simp add: inside_def)
  ultimately show ?thesis using g assms by (simp add: well_formed_def shape_new_grid)
qed

lemma reset_well_formed:
  assumes "well_formed s"
  shows "\<exists>s'. reset s = Some ([AckReset], s') \<and> well_formed s' \<and>
           width s' = width s \<and> height s' = height s"
proof -
  let ?w = "width s" and ?h = "height s"
  from assms have wh: "1 \<le> ?w" "1 \<le> ?h" and f: "shape ?w ?h (flood_values s)"
    by (auto simp: well_formed_def)
  from initialize_boundaries_adds[OF wh shape_new_grid, of "0::int"] obtain g where
    g: "initialize_boundaries ?w ?h (new_grid ?w ?h 0) = Some g"
       "adds ?w ?h (boundary_bits ?w ?h) (new_grid ?w ?h 0) g" by blast
  have "\<forall>c \<in> set (center_goals ?w ?h). inside ?w ?h c"
    using center_goals_inside[OF wh] by blast
  moreover have "inside ?w ?h (0, 0)" using wh by (simp add: inside_def)
  ultimately show ?thesis
    using g(1) adds_shape[OF g(2)] wh f by (simp add: reset_def well_formed_def)
qed

lemma scan_step:
  assumes "well_formed s" "i \<in> {0, 1, 2, 3}"
  shows "\<exists>g. (if b then set_wall (pos_x s) (pos_y s) ((direction s + i) mod 4) s else Some s) =
               Some (s\<lparr>walls := g\<rparr>) \<and> shape (width s) (height s) g"
proof (cases b)
  case False
  have "s = s\<lparr>walls := walls s\<rparr>" by simp
  with False assms(1) show ?thesis
    unfolding well_formed_def by (intro exI[of _ "walls s"]) auto
next
  case True
  from assms have sh: "shape (width s) (height s) (walls s)"
    and i: "inside (width s) (height s) (pos_x s, pos_y s)"
    and d: "(direction s + i) mod 4 \<in> {0, 1, 2, 3}"
    by (auto simp: well_formed_def)
  from set_wall_adds[OF sh i d] True show ?thesis by (auto dest: adds_shape)
qed

lemma well_formed_walls:
  "well_formed s \<Longrightarrow> shape (width s) (height s) g \<Longrightarrow> well_formed (s\<lparr>walls := g\<rparr>)"
  by (simp add: well_formed_def)

lemma scan_walls_well_formed:
  assumes "well_formed s"
  shows "\<exists>g. scan_walls sens s = Some (s\<lparr>walls := g\<rparr>) \<and> shape (width s) (height s) g"
proof -
  let ?body = "\<lambda>(i, has_wall) s.
           if has_wall then set_wall (pos_x s) (pos_y s) ((direction s + i) mod 4) s
           else Some s"
  have "\<exists>g. for_each xs ?body s = Some (s\<lparr>walls := g\<rparr>) \<and> shape (width s) (height s) g"
    if "fst ` set xs \<subseteq> {0, 1, 2, 3}" "well_formed s" for xs s
    using that
  proof (induction xs arbitrary: s)
    case Nil
    have "s = s\<lparr>walls := walls s\<rparr>" by simp
    with Nil show ?case unfolding well_formed_def by (intro exI[of _ "walls s"]) auto
  next
    case (Cons x xs)
    obtain i b where x: "x = (i, b)" by (cases x)
    with Cons.prems(1) have i: "i \<in> {0, 1, 2, 3}" by auto
    from scan_step[OF Cons.prems(2) i, of b] obtain g1 where
      1: "?body x s = Some (s\<lparr>walls := g1\<rparr>)" "shape (width s) (height s) g1"
      by (auto simp: x)
    from well_formed_walls[OF Cons.prems(2) 1(2)] have wf1: "well_formed (s\<lparr>walls := g1\<rparr>)" .
    from Cons.IH[OF _ wf1] Cons.prems(1) obtain g2 where
      "for_each xs ?body (s\<lparr>walls := g1\<rparr>) = Some (s\<lparr>walls := g1, walls := g2\<rparr>)"
      "shape (width s) (height s) g2" by auto
    with 1(1) show ?case by (intro exI[of _ g2]) simp
  qed
  from this[of "zip [0, 1, 2, 3] [wall_front sens, wall_right sens, wall_back sens, wall_left sens]" s]
    assms
  show ?thesis by (simp add: scan_walls_def)
qed

lemma get_best_direction_select:
  "get_best_direction s =
     (case grid_get (flood_values s) (pos_x s) (pos_y s) of None \<Rightarrow> None
      | Some current_value \<Rightarrow>
         (case for_each (range_py 4) (select_body s (\<lambda>v c. v) (<)) (None, \<infinity>) of
            None \<Rightarrow> None
          | Some (best_direction, best_value) \<Rightarrow> Some best_direction))"
  unfolding get_best_direction_def select_body_def by (simp add: Let_def cong: option.case_cong)

lemma explore_body_select:
  "(\<lambda>d (best_direction, best_value).
       case is_wall s (pos_x s) (pos_y s) d of None \<Rightarrow> None
       | Some True \<Rightarrow> Some (best_direction, best_value)
       | Some False \<Rightarrow>
          (case get_direction_offset d of None \<Rightarrow> None
           | Some (dx, dy) \<Rightarrow>
              (let next_x = pos_x s + dx; next_y = pos_y s + dy in
               if 0 \<le> next_x \<and> next_x < width s \<and> 0 \<le> next_y \<and> next_y < height s then
                 (case grid_get (flood_values s) next_x next_y of None \<Rightarrow> None
                  | Some v \<Rightarrow>
                     (let next_value =
                            (if (next_x, next_y) \<notin> visited s then flood_minus v 100
                             else flood_minus v 0) in
                      if pynum_less next_value best_value then Some (Some d, next_value)
                      else Some (best_direction, best_value)))
               else Some (best_direction, best_value)))) =
   select_body s (\<lambda>v c. if c \<notin> visited s then flood_minus v 100 else flood_minus v 0)
     pynum_less"
  by (intro ext) (simp add: select_body_def Let_def split: option.splits bool.splits prod.splits)

lemma explore_direction_select:
  "explore_direction s =
     (case for_each (range_py 4)
             (select_body s (\<lambda>v c. if c \<notin> visited s then flood_minus v 100 else flood_minus v 0)
                pynum_less)
             (None, PosInf) of
        None \<Rightarrow> None
      | Some (best_direction, best_value) \<Rightarrow> Some best_direction)"
  unfolding explore_direction_def explore_body_select ..

lemma select_step:
  assumes wf: "well_formed s" and d: "d \<in> {0, 1, 2, 3}" and op: "open_direction s (fst st)"
  shows "\<exists>st'. select_body s score better d st = Some st' \<and> open_direction s (fst st')"
proof -
  obtain bd bv where st: "st = (bd, bv)" by (cases st)
  from wf have sh: "shape (width s) (height s) (walls s)"
    and f: "shape (width s) (height s) (flood_values s)"
    and i: "inside (width s) (height s) (pos_x s, pos_y s)"
    by (auto simp: well_formed_def)
  have d0: "0 \<le> d" using d by auto
  note iw = is_wall_inside[OF sh i d0]
  obtain dx dy where o: "get_direction_offset d = Some (dx, dy)"
    using d by (auto simp: get_direction_offset_simps)
  show ?thesis
  proof (cases "bit (cell (walls s) (pos_x s, pos_y s)) (nat d)")
    case True
    then show ?thesis using op by (simp add: select_body_def st iw)
  next
    case nw: False
    show ?thesis
    proof (cases "inside (width s) (height s) (pos_x s + dx, pos_y s + dy)")
      case False
      then have "\<not> (0 \<le> pos_x s + dx \<and> pos_x s + dx < width s \<and>
                   0 \<le> pos_y s + dy \<and> pos_y s + dy < height s)"
        by (simp add: inside_def)
      then show ?thesis using op nw by (auto simp: select_body_def st iw o Let_def)
    next
      case True
      then have t: "0 \<le> pos_x s + dx \<and> pos_x s + dx < width s \<and>
                   0 \<le> pos_y s + dy \<and> pos_y s + dy < height s"
        by (simp add: inside_def)
      have new: "open_direction s (Some d)"
        using d iw nw o True by (simp add: open_direction_def)
      show ?thesis
        using op nw t new
        by (simp add: select_body_def st iw o Let_def grid_get_inside[OF f True])
    qed
  qed
qed

lemma select_loop:
  assumes wf: "well_formed s"
  shows "\<exists>sel v. for_each (range_py 4) (select_body s score better) (None, v0 :: 'v) = Some (sel, v) \<and>
           open_direction s sel"
proof -
  have "\<exists>st'. for_each (range_py 4) (select_body s score better) (None, v0) = Some st' \<and>
           open_direction s (fst st')"
  proof (rule for_each_invariant[where I = "\<lambda>st. open_direction s (fst st)"])
    fix d and st :: "int option \<times> 'v"
    assume "d \<in> set (range_py 4)" "open_direction s (fst st)"
    then show "\<exists>st'. select_body s score better d st = Some st' \<and> open_direction s (fst st')"
      by (intro select_step[OF wf]) (auto simp: range_py_4)
  next
    show "open_direction s (fst (None, v0))" by (simp add: open_direction_def)
  qed
  then show ?thesis by auto
qed

lemma get_best_direction_open:
  assumes wf: "well_formed s"
  shows "\<exists>sel. get_best_direction s = Some sel \<and> open_direction s sel"
proof -
  from wf have f: "shape (width s) (height s) (flood_values s)"
    and i: "inside (width s) (height s) (pos_x s, pos_y s)"
    by (auto simp: well_formed_def)
  from select_loop[OF wf, of "\<lambda>v c. v" "(<)" "\<infinity>"] grid_get_inside[OF f i]
  show ?thesis by (auto simp: get_best_direction_select)
qed

lemma explore_direction_open:
  assumes wf: "well_formed s"
  shows "\<exists>sel. explore_direction s = Some sel \<and> open_direction s sel"
proof -
  from select_loop[OF wf, of "\<lambda>v c. if c \<notin> visited s then flood_minus v 100 else flood_minus v 0"
      pynum_less PosInf]
  obtain sel v where l: "for_each (range_py 4)
      (select_body s (\<lambda>v c. if c \<notin> visited s then flood_minus v 100 else flood_minus v 0)
         pynum_less) (None, PosInf) = Some (sel, v)" and op: "open_direction s sel"
    by blast
  show ?thesis by (intro exI[of _ sel]) (simp add: explore_direction_select l op)
qed

lemma unvisited_neighbour_total:
  assumes wf: "well_formed s"
  shows "set ds \<subseteq> {0, 1, 2, 3} \<Longrightarrow> \<exists>r. unvisited_neighbour s ds = Some r"
proof (induction ds)
  case Nil
  show ?case by (rule exI[of _ False]) simp
next
  case (Cons d ds)
  from wf have sh: "shape (width s) (height s) (walls s)"
    and i: "inside (width s) (height s) (pos_x s, pos_y s)"
    by (auto simp: well_formed_def)
  from Cons.prems have d: "d \<in> {0, 1, 2, 3}" by auto
  then have d0: "0 \<le> d" by auto
  obtain dx dy where o: "get_direction_offset d = Some (dx, dy)"
    using d by (auto simp: get_direction_offset_simps)
  from Cons obtain r where r: "unvisited_neighbour s ds = Some r" by auto
  have e: "unvisited_neighbour s (d # ds) =
      (if bit (cell (walls s) (pos_x s, pos_y s)) (nat d) then Some r
       else if 0 \<le> pos_x s + dx \<and> pos_x s + dx < width s \<and> 0 \<le> pos_y s + dy \<and>
               pos_y s + dy < height s \<and> (pos_x s + dx, pos_y s + dy) \<notin> visited s
            then Some True else Some r)"
    by (simp add: is_wall_inside[OF sh i d0] o r Let_def)
  show ?case unfolding e by (simp split: if_splits) blast
qed

lemma should_explore_more_total:
  assumes wf: "well_formed s"
  shows "\<exists>r. should_explore_more ft s = Some r"
proof -
  from wf have f: "shape (width s) (height s) (flood_values s)"
    and i: "inside (width s) (height s) (pos_x s, pos_y s)"
    by (auto simp: well_formed_def)
  from unvisited_neighbour_total[OF wf, of "range_py 4"] obtain r where
    "unvisited_neighbour s (range_py 4) = Some r" by (auto simp: range_py_4)
  then show ?thesis
    by (cases r) (auto simp: should_explore_more_def grid_get_inside[OF f i])
qed

lemma choose_direction_open:
  assumes wf: "well_formed s"
  shows "\<exists>sel. choose_direction ft s = Some sel \<and> open_direction s sel"
proof -
  from should_explore_more_total[OF wf] obtain r where
    r: "should_explore_more ft s = Some r" by blast
  show ?thesis
    using get_best_direction_open[OF wf] explore_direction_open[OF wf]
    by (simp add: choose_direction_def r)
qed

lemma turn_to_direction_total:
  assumes "direction s \<in> {0, 1, 2, 3}" "d \<in> {0, 1, 2, 3}"
  shows "\<exists>cs. turn_to_direction d s = Some (cs, s\<lparr>direction := d\<rparr>)"
proof -
  have b: "0 \<le> direction s" "direction s < 4" "0 \<le> d" "d < 4" using assms by auto
  show ?thesis by (simp add: turn_to_direction_def turn_loop_cases[OF b])
qed

lemma floodfill_well_formed:
  assumes "well_formed s"
  shows "\<exists>fv. floodfill s = Some (s\<lparr>flood_values := fv\<rparr>) \<and> well_formed (s\<lparr>flood_values := fv\<rparr>)"
proof -
  from assms have w: "shape (width s) (height s) (walls s)"
    and f: "shape (width s) (height s) (flood_values s)"
    and g: "\<forall>g \<in> set (goals s). inside (width s) (height s) g"
    by (auto simp: well_formed_def)
  from floodfill_result[OF w f g] obtain fv where
    fv: "floodfill s = Some (s\<lparr>flood_values := fv\<rparr>)" "bfs_inv s fv []" by blast
  from fv(2) have "shape (width s) (height s) fv" by (simp add: bfs_inv_def)
  with assms have "well_formed (s\<lparr>flood_values := fv\<rparr>)" by (simp add: well_formed_def)
  with fv(1) show ?thesis by blast
qed

text \<open>The wall scan and the flood fill of a pass change the two grids only.\<close>

lemma scan_and_flood:
  assumes "well_formed s"
  shows "\<exists>g fv. scan_walls sens s = Some (s\<lparr>walls := g\<rparr>) \<and>
           floodfill (s\<lparr>walls := g\<rparr>) = Some (s\<lparr>walls := g, flood_values := fv\<rparr>) \<and>
           well_formed (s\<lparr>walls := g, flood_values := fv\<rparr>)"
proof -
  from scan_walls_well_formed[OF assms, of sens] obtain g where
    g: "scan_walls sens s = Some (s\<lparr>walls := g\<rparr>)" "shape (width s) (height s) g" by blast
  from well_formed_walls[OF assms g(2)] have "well_formed (s\<lparr>walls := g\<rparr>)" .
  from floodfill_well_formed[OF this] g(1) show ?thesis by auto
qed

lemma move_well_formed:
  assumes wf: "well_formed s" and op: "open_direction s (Some d)"
  shows "\<exists>cs s'. turn_to_direction d s = Some (cs, s\<lparr>direction := d\<rparr>) \<and>
           move_forward (s\<lparr>direction := d\<rparr>) = Some ([MoveForward], s') \<and> well_formed s' \<and>
           width s' = width s \<and> height s' = height s"
proof -
  from op obtain dx dy where d: "d \<in> {0, 1, 2, 3}"
    and o: "get_direction_offset d = Some (dx, dy)"
    and i: "inside (width s) (height s) (pos_x s + dx, pos_y s + dy)"
    by (auto simp: open_direction_def)
  from wf have "direction s \<in> {0, 1, 2, 3}" by (simp add: well_formed_def)
  from turn_to_direction_total[OF this d] obtain cs where
    t: "turn_to_direction d s = Some (cs, s\<lparr>direction := d\<rparr>)" by blast
  let ?s' = "s\<lparr>direction := d, pos_x := pos_x s + dx, pos_y := pos_y s + dy,
               visited := insert (pos_x s + dx, pos_y s + dy) (visited s)\<rparr>"
  have m: "move_forward (s\<lparr>direction := d\<rparr>) = Some ([MoveForward], ?s')"
    by (simp add: move_forward_def o)
  have "well_formed ?s'" using wf i d by (simp add: well_formed_def)
  with t m show ?thesis by (intro exI[of _ cs] exI[of _ ?s']) simp
qed

lemma cycle_well_formed:
  assumes wf: "well_formed s"
  shows "\<exists>cs out. cycle ft n sens s = Some (cs, out) \<and> well_formed (outcome_state out) \<and>
           width (outcome_state out) = width s \<and> height (outcome_state out) = height s"
proof (cases "was_reset sens")
  case True
  from reset_well_formed[OF wf] obtain s' where
    "reset s = Some ([AckReset], s')" "well_formed s'" "width s' = width s" "height s' = height s"
    by blast
  with True show ?thesis by (simp add: cycle_def)
next
  case False
  from scan_and_flood[OF wf, of sens] obtain g fv where
    sc: "scan_walls sens s = Some (s\<lparr>walls := g\<rparr>)"
    and fl: "floodfill (s\<lparr>walls := g\<rparr>) = Some (s\<lparr>walls := g, flood_values := fv\<rparr>)"
    and wf2: "well_formed (s\<lparr>walls := g, flood_values := fv\<rparr>)"
    by blast
  let ?s2 = "s\<lparr>walls := g, flood_values := fv\<rparr>"
  show ?thesis
  proof (cases "at_goal ?s2")
    case True
    have "well_formed (?s2\<lparr>phase := SpeedRun, goals := [(0, 0)]\<rparr>)"
      using wf2 by (simp add: well_formed_def inside_def)
    with True wf2 show ?thesis
      using False sc fl by (cases "phase s") (simp_all add: cycle_def)
  next
    case ng: False
    from choose_direction_open[OF wf2, of ft] obtain sel where
      ch: "choose_direction ft ?s2 = Some sel" and op: "open_direction ?s2 sel" by blast
    show ?thesis
    proof (cases sel)
      case None
      with ch ng wf2 False sc fl show ?thesis by (simp add: cycle_def)
    next
      case (Some d)
      from move_well_formed[OF wf2 op[unfolded Some]] obtain cs s' where
        "turn_to_direction d ?s2 = Some (cs, ?s2\<lparr>direction := d\<rparr>)"
        "move_forward (?s2\<lparr>direction := d\<rparr>) = Some ([MoveForward], s')" "well_formed s'"
        "width s' = width ?s2" "height s' = height ?s2"
        by blast
      with ch ng False sc fl Some show ?thesis by (simp add: cycle_def)
    qed
  qed
qed

lemma run_well_formed:
  "well_formed s \<Longrightarrow>
     \<exists>cs r. run ft senss k s = Some (cs, r) \<and> well_formed (final_state r) \<and>
            width (final_state r) = width s \<and> height (final_state r) = height s"
proof (induction senss arbitrary: s k)
  case Nil
  then show ?case by simp
next
  case (Cons sens senss)
  from cycle_well_formed[OF Cons.prems, of ft "k + 1" sens] obtain cs out where
    c: "cycle ft (k + 1) sens s = Some (cs, out)" "well_formed (outcome_state out)"
       "width (outcome_state out) = width s" "height (outcome_state out) = height s"
    by blast
  show ?case
  proof (cases out)
    case (Continue s')
    with c have "well_formed s'" "width s' = width s" "height s' = height s" by auto
    with Cons.IH[of s' "k + 1"] obtain cs' r where
      "run ft senss (k + 1) s' = Some (cs', r)" "well_formed (final_state r)"
      "width (final_state r) = width s" "height (final_state r) = height s" by auto
    with c(1) Continue show ?thesis by simp
  next
    case (Break why s')
    with c show ?thesis by simp
  qed
qed

section \<open>The preconditions of the flood fill along a run\<close>

text \<open>
  Wall symmetry is kept by every pass of the main loop, so every call of \<open>floodfill\<close> the
  loop makes finds the hypotheses of the correctness theorem: grids of the maze's shape,
  symmetric walls and goal cells inside the grid.
\<close>

lemma scan_walls_sym:
  assumes "well_formed s" "wall_sym (width s) (height s) (walls s)"
  shows "\<exists>g. scan_walls sens s = Some (s\<lparr>walls := g\<rparr>) \<and> shape (width s) (height s) g \<and>
             wall_sym (width s) (height s) g"
proof -
  let ?body = "\<lambda>(i, has_wall) s.
           if has_wall then set_wall (pos_x s) (pos_y s) ((direction s + i) mod 4) s
           else Some s"
  have "\<exists>g. for_each xs ?body s = Some (s\<lparr>walls := g\<rparr>) \<and> shape (width s) (height s) g \<and>
             wall_sym (width s) (height s) g"
    if "fst ` set xs \<subseteq> {0, 1, 2, 3}" "well_formed s" "wall_sym (width s) (height s) (walls s)"
    for xs s
    using that
  proof (induction xs arbitrary: s)
    case Nil
    have "s = s\<lparr>walls := walls s\<rparr>" by simp
    with Nil show ?case unfolding well_formed_def by (intro exI[of _ "walls s"]) auto
  next
    case (Cons x xs)
    obtain i b where x: "x = (i, b)" by (cases x)
    with Cons.prems(1) have i: "i \<in> {0, 1, 2, 3}" by auto
    have "\<exists>g1. ?body x s = Some (s\<lparr>walls := g1\<rparr>) \<and> shape (width s) (height s) g1 \<and>
             wall_sym (width s) (height s) g1"
    proof (cases b)
      case False
      have "s = s\<lparr>walls := walls s\<rparr>" by simp
      with False Cons.prems(2,3) show ?thesis
        unfolding well_formed_def x by (intro exI[of _ "walls s"]) auto
    next
      case True
      from Cons.prems(2) i have sh: "shape (width s) (height s) (walls s)"
        and p: "inside (width s) (height s) (pos_x s, pos_y s)"
        and d: "(direction s + i) mod 4 \<in> {0, 1, 2, 3}"
        by (auto simp: well_formed_def)
      from set_wall_adds[OF sh p d] obtain g where
        g: "set_wall (pos_x s) (pos_y s) ((direction s + i) mod 4) s = Some (s\<lparr>walls := g\<rparr>)"
           "adds (width s) (height s)
              (wall_pair (width s) (height s) (pos_x s) (pos_y s) ((direction s + i) mod 4))
              (walls s) g"
        by blast
      from wall_sym_adds[OF Cons.prems(3) g(2) d] adds_shape[OF g(2)] g(1) True
      show ?thesis by (intro exI[of _ g]) (simp add: x)
    qed
    then obtain g1 where
      1: "?body x s = Some (s\<lparr>walls := g1\<rparr>)" "shape (width s) (height s) g1"
         "wall_sym (width s) (height s) g1"
      by blast
    from well_formed_walls[OF Cons.prems(2) 1(2)] have wf1: "well_formed (s\<lparr>walls := g1\<rparr>)" .
    from Cons.IH[OF _ wf1] Cons.prems(1) 1(3) obtain g2 where
      "for_each xs ?body (s\<lparr>walls := g1\<rparr>) = Some (s\<lparr>walls := g1, walls := g2\<rparr>)"
      "shape (width s) (height s) g2" "wall_sym (width s) (height s) g2" by auto
    with 1(1) show ?case by (intro exI[of _ g2]) simp
  qed
  from this[of "zip [0, 1, 2, 3] [wall_front sens, wall_right sens, wall_back sens, wall_left sens]" s]
    assms
  show ?thesis by (simp add: scan_walls_def)
qed

lemma floodfill_keeps:
  "floodfill s = Some s' \<Longrightarrow> \<exists>fv. s' = s\<lparr>flood_values := fv\<rparr>"
  by (auto simp: floodfill_def split: option.splits)

lemma turn_to_direction_keeps:
  "turn_to_direction d s = Some (cs, s') \<Longrightarrow> \<exists>dir. s' = s\<lparr>direction := dir\<rparr>"
  by (auto simp: turn_to_direction_def split: option.splits)

lemma move_forward_keeps:
  "move_forward s = Some (cs, s') \<Longrightarrow> walls s' = walls s \<and> width s' = width s \<and> height s' = height s"
  by (auto simp: move_forward_def split: option.splits)

lemma cycle_walls:
  assumes "\<not> was_reset sens" "scan_walls sens s = Some (s\<lparr>walls := g\<rparr>)"
    "cycle ft n sens s = Some (cs, out)"
  shows "walls (outcome_state out) = g"
proof -
  from assms(1,2,3) obtain s2 where f: "floodfill (s\<lparr>walls := g\<rparr>) = Some s2"
    by (auto simp: cycle_def split: option.splits)
  from floodfill_keeps[OF f] have w2: "walls s2 = g" by auto
  show ?thesis
  proof (cases "at_goal s2")
    case True
    with assms f w2 show ?thesis
      by (cases "phase s2") (auto simp: cycle_def)
  next
    case False
    with assms f obtain sel where ch: "choose_direction ft s2 = Some sel"
      by (auto simp: cycle_def split: option.splits)
    show ?thesis
    proof (cases sel)
      case None
      with assms f False ch w2 show ?thesis by (auto simp: cycle_def)
    next
      case (Some d)
      with assms f False ch obtain cs1 s3 ms s4 where
        t: "turn_to_direction d s2 = Some (cs1, s3)" and m: "move_forward s3 = Some (ms, s4)"
        and o: "outcome_state out = s4"
        by (auto simp: cycle_def split: option.splits if_splits)
      from turn_to_direction_keeps[OF t] move_forward_keeps[OF m] w2 o show ?thesis by auto
    qed
  qed
qed

lemma reset_sym:
  assumes "well_formed s" "reset s = Some (cs, s')"
  shows "wall_sym (width s') (height s') (walls s')"
proof -
  let ?w = "width s" and ?h = "height s"
  from assms(1) have wh: "1 \<le> ?w" "1 \<le> ?h" by (auto simp: well_formed_def)
  from initialize_boundaries_adds[OF wh shape_new_grid, of "0::int"] obtain g where
    g: "initialize_boundaries ?w ?h (new_grid ?w ?h 0) = Some g"
       "adds ?w ?h (boundary_bits ?w ?h) (new_grid ?w ?h 0) g" by blast
  from g(2) have "\<forall>c n. inside ?w ?h c \<longrightarrow> (bit (cell g c) n \<longleftrightarrow> (c, n) \<in> boundary_bits ?w ?h)"
    by (simp add: adds_def cell_new_grid)
  then have "wall_sym ?w ?h g" by (rule wall_sym_boundary)
  with assms(2) g(1) show ?thesis by (auto simp: reset_def)
qed

lemma cycle_keeps_sym:
  assumes wf: "well_formed s" and sy: "wall_sym (width s) (height s) (walls s)"
    and c: "cycle ft n sens s = Some (cs, out)"
  shows "wall_sym (width (outcome_state out)) (height (outcome_state out))
           (walls (outcome_state out))"
proof (cases "was_reset sens")
  case True
  with c obtain cs' s' where r: "reset s = Some (cs', s')" and o: "out = Continue s'"
    by (auto simp: cycle_def split: option.splits)
  from reset_sym[OF wf r] o show ?thesis by simp
next
  case False
  from scan_walls_sym[OF wf sy, of sens] obtain g where
    g: "scan_walls sens s = Some (s\<lparr>walls := g\<rparr>)" "wall_sym (width s) (height s) g" by blast
  from cycle_walls[OF False g(1) c] have "walls (outcome_state out) = g" .
  moreover from cycle_well_formed[OF wf, of ft n sens] c
  have "width (outcome_state out) = width s" "height (outcome_state out) = height s" by auto
  ultimately show ?thesis using g(2) by simp
qed

text \<open>
  Every controller the main loop reaches from the constructor is well formed and has
  symmetric walls.
\<close>

lemma run_keeps_sym:
  "well_formed s \<Longrightarrow> wall_sym (width s) (height s) (walls s) \<Longrightarrow>
   run ft senss k s = Some (cs, r) \<Longrightarrow>
     well_formed (final_state r) \<and>
     wall_sym (width (final_state r)) (height (final_state r)) (walls (final_state r))"
proof (induction senss arbitrary: s k cs r)
  case Nil
  then show ?case by auto
next
  case (Cons sens senss)
  from cycle_well_formed[OF Cons.prems(1), of ft "k + 1" sens] obtain cs1 out where
    c: "cycle ft (k + 1) sens s = Some (cs1, out)" "well_formed (outcome_state out)" by blast
  from cycle_keeps_sym[OF Cons.prems(1,2) c(1)]
  have sy: "wall_sym (width (outcome_state out)) (height (outcome_state out))
           (walls (outcome_state out))" .
  show ?case
  proof (cases out)
    case (Continue s')
    with c Cons.prems(3) obtain cs2 where "run ft senss (k + 1) s' = Some (cs2, r)"
      by (auto split: option.splits)
    from Cons.IH[OF _ _ this] c(2) sy Continue show ?thesis by simp
  next
    case (Break why s')
    with c sy Cons.prems(3) show ?thesis by auto
  qed
qed

lemma init_sym:
  assumes "1 \<le> w" "1 \<le> h" "init w h = Some s"
  shows "well_formed s \<and> wall_sym (width s) (height s) (walls s)"
proof -
  from init_walls[OF assms(1,2)] assms(3)
  have "width s = w" "height s = h"
    "\<forall>c n. inside w h c \<longrightarrow> (bit (cell (walls s) c) n \<longleftrightarrow> (c, n) \<in> boundary_bits w h)"
    by auto
  moreover from this(3) have "wall_sym w h (walls s)" by (rule wall_sym_boundary)
  moreover from init_well_formed[OF assms(1,2)] assms(3) have "well_formed s" by auto
  ultimately show ?thesis by simp
qed

section \<open>Position invariant\<close>

text \<open>
  C10. For \<open>w \<ge> 1\<close> and \<open>h \<ge> 1\<close> the constructor returns a controller \<open>s0\<close>, and for every
  list of answers of the simulator the main loop, run from \<open>s0\<close> on these answers, returns
  (still running or stopped) with the robot's position inside the grid: so the position is
  inside the grid after every pass. The invariant behind it: a pass from a well-formed
  controller returns a well-formed controller, whose position is inside the grid; and the
  move selection of either phase returns no direction or a direction from 0 to 3 that
  \<open>is_wall\<close> does not block and whose neighbour cell is inside the grid.
\<close>

theorem position_stays_in_bounds:
  assumes "1 \<le> w" and "1 \<le> h"
  shows "(\<exists>s0. init w h = Some s0 \<and>
            (\<forall>senss. \<exists>cs r. run ft senss 0 s0 = Some (cs, r) \<and>
                0 \<le> pos_x (final_state r) \<and> pos_x (final_state r) < w \<and>
                0 \<le> pos_y (final_state r) \<and> pos_y (final_state r) < h)) \<and>
         (\<forall>s n sens. well_formed s \<longrightarrow>
            (\<exists>cs out. cycle ft n sens s = Some (cs, out) \<and> well_formed (outcome_state out))) \<and>
         (\<forall>s. well_formed s \<longrightarrow>
            (\<exists>sel. choose_direction ft s = Some sel \<and> open_direction s sel))"
proof -
  from init_well_formed[OF assms] obtain s0 where
    s0: "init w h = Some s0" "well_formed s0" "width s0 = w" "height s0 = h" by blast
  have "\<exists>cs r. run ft senss 0 s0 = Some (cs, r) \<and>
                0 \<le> pos_x (final_state r) \<and> pos_x (final_state r) < w \<and>
                0 \<le> pos_y (final_state r) \<and> pos_y (final_state r) < h" for senss
  proof -
    from run_well_formed[OF s0(2), of ft senss 0] obtain cs r where
      r: "run ft senss 0 s0 = Some (cs, r)" "well_formed (final_state r)"
         "width (final_state r) = width s0" "height (final_state r) = height s0" by blast
    from r(2,3,4) s0(3,4) have "0 \<le> pos_x (final_state r) \<and> pos_x (final_state r) < w \<and>
                0 \<le> pos_y (final_state r) \<and> pos_y (final_state r) < h"
      by (simp add: well_formed_def inside_def)
    with r(1) show ?thesis by blast
  qed
  with s0(1) have 1: "\<exists>s0. init w h = Some s0 \<and>
            (\<forall>senss. \<exists>cs r. run ft senss 0 s0 = Some (cs, r) \<and>
                0 \<le> pos_x (final_state r) \<and> pos_x (final_state r) < w \<and>
                0 \<le> pos_y (final_state r) \<and> pos_y (final_state r) < h)" by blast
  have 2: "\<forall>s n sens. well_formed s \<longrightarrow>
            (\<exists>cs out. cycle ft n sens s = Some (cs, out) \<and> well_formed (outcome_state out))"
    using cycle_well_formed by blast
  have 3: "\<forall>s. well_formed s \<longrightarrow>
            (\<exists>sel. choose_direction ft s = Some sel \<and> open_direction s sel)"
    using choose_direction_open by blast
  from 1 2 3 show ?thesis by (intro conjI)
qed

theorem position_stays_in_bounds_witness:
  "init 3 3 = Some fresh_3x3 \<and>
   (\<exists>cs r. run exact_tests [at_start, no_walls] 0 fresh_3x3 = Some (cs, r) \<and>
       0 \<le> pos_x (final_state r) \<and> pos_x (final_state r) < 3 \<and>
       0 \<le> pos_y (final_state r) \<and> pos_y (final_state r) < 3)"
proof -
  from position_stays_in_bounds[of 3 3 exact_tests, THEN conjunct1] init_3x3
  have "\<forall>senss. \<exists>cs r. run exact_tests senss 0 fresh_3x3 = Some (cs, r) \<and>
                0 \<le> pos_x (final_state r) \<and> pos_x (final_state r) < 3 \<and>
                0 \<le> pos_y (final_state r) \<and> pos_y (final_state r) < 3"
    by simp
  with init_3x3 show ?thesis by blast
qed

section \<open>Reaching a goal cell\<close>

lemma two_passes_3x3:
  "run exact_tests [at_start, wall_on_left] 0 fresh_3x3 =
     Some ([MoveForward, TurnRight, MoveForward], Running 2 at_goal_3x3)"
  by code_simp

lemma at_goal_3x3_well_formed: "well_formed at_goal_3x3"
  by (simp add: well_formed_def at_goal_3x3_def flooded_3x3_def fresh_3x3_def shape_def inside_def)

lemma reset_at_goal_3x3:
  "cycle exact_tests 3 reset_signal at_goal_3x3 = Some ([AckReset], Continue flooded_3x3)"
  by code_simp

text \<open>
  C3, as the code has it. In a pass that does not see the reset signal and in which the
  robot's cell is a goal cell, from a well-formed controller: the wall scan and the flood
  fill leave the position as it is; in the exploring phase the pass sends no command and
  the loop goes on with the phase \<open>SpeedRun\<close> and the goal list \<open>[(0, 0)]\<close>; in the
  speed-run phase the pass sends no command and the loop stops (speed run complete),
  whatever answers would follow.
\<close>

theorem goal_reached:
  assumes "well_formed s" and "\<not> was_reset sens" and "at_goal s"
  shows "\<exists>s2. pos_x s2 = pos_x s \<and> pos_y s2 = pos_y s \<and> phase s2 = phase s \<and>
           (phase s = Explore \<longrightarrow>
              cycle ft n sens s =
                Some ([], Continue (s2\<lparr>phase := SpeedRun, goals := [(0, 0)]\<rparr>))) \<and>
           (phase s = SpeedRun \<longrightarrow>
              cycle ft n sens s = Some ([], Break SpeedRunComplete s2) \<and>
              run ft (sens # rest) k s = Some ([], Stopped SpeedRunComplete (k + 1) s2))"
proof -
  from scan_and_flood[OF assms(1), of sens] obtain g fv where
    sc: "scan_walls sens s = Some (s\<lparr>walls := g\<rparr>)"
    and fl: "floodfill (s\<lparr>walls := g\<rparr>) = Some (s\<lparr>walls := g, flood_values := fv\<rparr>)"
    by blast
  let ?s2 = "s\<lparr>walls := g, flood_values := fv\<rparr>"
  have g2: "at_goal ?s2" using assms(3) by (simp add: at_goal_def)
  have c: "\<And>m. cycle ft m sens s =
      (case phase s of
         Explore \<Rightarrow> Some ([], Continue (?s2\<lparr>phase := SpeedRun, goals := [(0, 0)]\<rparr>))
       | SpeedRun \<Rightarrow> Some ([], Break SpeedRunComplete ?s2))"
    using assms(2) sc fl g2 by (simp add: cycle_def)
  show ?thesis
    by (intro exI[of _ ?s2]) (simp add: c)
qed

theorem goal_reached_witness:
  "well_formed at_goal_3x3 \<and> \<not> was_reset no_walls \<and> at_goal at_goal_3x3 \<and>
   phase at_goal_3x3 = Explore \<and>
   (\<exists>s2. pos_x s2 = 1 \<and> pos_y s2 = 1 \<and>
         cycle exact_tests 3 no_walls at_goal_3x3 =
           Some ([], Continue (s2\<lparr>phase := SpeedRun, goals := [(0, 0)]\<rparr>)))"
proof -
  have h: "\<not> was_reset no_walls" "at_goal at_goal_3x3" "phase at_goal_3x3 = Explore"
    "pos_x at_goal_3x3 = 1" "pos_y at_goal_3x3 = 1"
    by (simp_all add: no_walls_def at_goal_def at_goal_3x3_def flooded_3x3_def fresh_3x3_def)
  from goal_reached[OF at_goal_3x3_well_formed h(1,2), of exact_tests 3 "[]" 0] h(3,4,5)
  have "\<exists>s2. pos_x s2 = 1 \<and> pos_y s2 = 1 \<and>
         cycle exact_tests 3 no_walls at_goal_3x3 =
           Some ([], Continue (s2\<lparr>phase := SpeedRun, goals := [(0, 0)]\<rparr>))"
    by auto
  with at_goal_3x3_well_formed h show ?thesis by simp
qed

text \<open>
  The claim as stated fails in a pass that sees the reset signal. After two passes the robot
  stands on the goal cell (1, 1) in the exploring phase; the third pass sees the reset
  signal, and the phase stays \<open>Explore\<close>, the goal list stays the centre cell and an
  ackReset is sent.
\<close>

theorem reset_at_goal_counterexample:
  "run exact_tests [at_start, wall_on_left] 0 fresh_3x3 =
     Some ([MoveForward, TurnRight, MoveForward], Running 2 at_goal_3x3) \<and>
   at_goal at_goal_3x3 \<and> phase at_goal_3x3 = Explore \<and>
   cycle exact_tests 3 reset_signal at_goal_3x3 = Some ([AckReset], Continue flooded_3x3) \<and>
   phase flooded_3x3 = Explore \<and> goals flooded_3x3 = [(1, 1)]"
  using two_passes_3x3 reset_at_goal_3x3
  by (simp add: at_goal_def at_goal_3x3_def flooded_3x3_def fresh_3x3_def)

section \<open>Reset and the fresh controller\<close>

text \<open>
  The flood values a pass starts from do not matter to it: \<open>floodfill\<close> assigns every cell
  before any value is read.
\<close>

lemma grid_constant:
  assumes "shape w h g" "\<forall>c. inside w h c \<longrightarrow> cell g c = v"
  shows "g = new_grid w h v"
proof (rule nth_equalityI)
  show "length g = length (new_grid w h v)" using assms(1) by (simp add: shape_def new_grid_def)
next
  fix i assume i: "i < length g"
  then have iw: "i < nat w" using assms(1) by (simp add: shape_def)
  have row: "length (g ! i) = nat h" using assms(1) i by (simp add: shape_def)
  have "g ! i = replicate (nat h) v"
  proof (rule nth_equalityI)
    show "length (g ! i) = length (replicate (nat h) v)" using row by simp
  next
    fix j assume j: "j < length (g ! i)"
    then have "inside w h (int i, int j)" using iw row by (auto simp: inside_def)
    with assms(2) have "cell g (int i, int j) = v" by blast
    then show "g ! i ! j = replicate (nat h) v ! j" using j row by (simp add: cell_def)
  qed
  then show "g ! i = new_grid w h v ! i" using iw by (simp add: new_grid_def)
qed

lemma clear_loop_result:
  assumes "shape w h (g :: 'a grid)"
  shows "for_each (range_py w) (\<lambda>a. for_each (range_py h) (\<lambda>b fv. grid_set fv a b v)) g =
           Some (new_grid w h v)"
proof -
  from clear_loop[OF assms, of v] obtain g' where
    g': "for_each (range_py w) (\<lambda>a. for_each (range_py h) (\<lambda>b fv. grid_set fv a b v)) g = Some g'"
    "shape w h g'" "\<forall>c. inside w h c \<longrightarrow> cell g' c = v" by blast
  from grid_constant[OF g'(2,3)] g'(1) show ?thesis by simp
qed

lemma is_wall_forgets: "is_wall (s\<lparr>flood_values := x\<rparr>) = is_wall s"
  by (intro ext) (simp add: is_wall_def)

lemma relax_forgets: "relax (s\<lparr>flood_values := x\<rparr>) = relax s"
  by (intro ext)
    (auto simp: relax_def is_wall_forgets Let_def split: prod.splits option.splits bool.splits)

lemma bfs_loop_forgets: "bfs_loop (s\<lparr>flood_values := x\<rparr>) st = bfs_loop s st"
proof (induction s st rule: bfs_loop.induct)
  case (1 s fv)
  then show ?case by simp
next
  case (2 s fv a b q)
  show ?case
  proof (cases "grid_get fv a b")
    case None
    then show ?thesis by simp
  next
    case (Some cur)
    show ?thesis
    proof (cases "for_each (range_py 4) (relax s a b cur) (fv, q)")
      case None
      with Some show ?thesis by (simp add: relax_forgets)
    next
      case st: (Some st)
      from 2[OF Some st] Some st show ?thesis by (simp add: relax_forgets)
    qed
  qed
qed

lemma floodfill_forgets:
  assumes "shape (width s) (height s) (flood_values s)" "shape (width s) (height s) x"
  shows "floodfill (s\<lparr>flood_values := x\<rparr>) = floodfill s"
  by (simp add: floodfill_def clear_loop_result[OF assms(1)] clear_loop_result[OF assms(2)]
      bfs_loop_forgets split: option.splits)

lemma set_wall_forgets:
  "set_wall a b d (s\<lparr>flood_values := x\<rparr>) =
     map_option (\<lambda>t. t\<lparr>flood_values := x\<rparr>) (set_wall a b d s)"
  by (simp add: set_wall_def Let_def split: option.splits prod.splits)

lemma scan_walls_forgets:
  "scan_walls sens (s\<lparr>flood_values := x\<rparr>) =
     map_option (\<lambda>t. t\<lparr>flood_values := x\<rparr>) (scan_walls sens s)"
proof -
  let ?body = "\<lambda>(i, has_wall) s.
           if has_wall then set_wall (pos_x s) (pos_y s) ((direction s + i) mod 4) s
           else Some s"
  have "for_each xs ?body (s\<lparr>flood_values := x\<rparr>) =
          map_option (\<lambda>t. t\<lparr>flood_values := x\<rparr>) (for_each xs ?body s)" for xs s
  proof (induction xs arbitrary: s)
    case Nil
    then show ?case by simp
  next
    case (Cons c xs)
    obtain i b where c: "c = (i, b)" by (cases c)
    have 1: "?body c (s\<lparr>flood_values := x\<rparr>) = map_option (\<lambda>t. t\<lparr>flood_values := x\<rparr>) (?body c s)"
      by (simp add: c set_wall_forgets)
    show ?case
    proof (cases "?body c s")
      case None
      with 1 show ?thesis by simp
    next
      case (Some s1)
      with 1 Cons[of s1] show ?thesis by simp
    qed
  qed
  then show ?thesis by (simp add: scan_walls_def)
qed

text \<open>A pass that does not see the reset signal is the same from any flood values of the maze's shape.\<close>

lemma cycle_forgets:
  assumes wf: "well_formed s" and x: "shape (width s) (height s) x" and nr: "\<not> was_reset sens"
  shows "cycle ft n sens (s\<lparr>flood_values := x\<rparr>) = cycle ft n sens s"
proof -
  from scan_walls_well_formed[OF wf, of sens] obtain g where
    g: "scan_walls sens s = Some (s\<lparr>walls := g\<rparr>)" by blast
  let ?s1 = "s\<lparr>walls := g\<rparr>"
  have sc: "scan_walls sens (s\<lparr>flood_values := x\<rparr>) = Some (?s1\<lparr>flood_values := x\<rparr>)"
    by (simp add: scan_walls_forgets g)
  from wf have "shape (width ?s1) (height ?s1) (flood_values ?s1)" by (simp add: well_formed_def)
  moreover from x have "shape (width ?s1) (height ?s1) x" by simp
  ultimately have "floodfill (?s1\<lparr>flood_values := x\<rparr>) = floodfill ?s1" by (rule floodfill_forgets)
  with sc g nr show ?thesis by (simp add: cycle_def)
qed


lemma reset_forgets:
  "reset (s\<lparr>flood_values := x\<rparr>) =
     map_option (\<lambda>(cs, t). (cs, t\<lparr>flood_values := x\<rparr>)) (reset s)"
  by (simp add: reset_def split: option.splits)

text \<open>
  C8, as the code has it. For a well-formed controller \<open>s\<close> the reset handling returns a
  controller \<open>s1\<close>, and a second reset returns \<open>s1\<close> again. The constructor for the same
  dimensions returns \<open>s0\<close>, and \<open>s1\<close> is \<open>s0\<close> in every field but the flood values, which
  the reset leaves as they were in \<open>s\<close>. They are not read before they are recomputed: a
  pass that does not see the reset signal gives the same commands and the same controller
  from \<open>s1\<close> as from \<open>s0\<close>.
\<close>

theorem reset_idempotent_and_fresh:
  assumes "well_formed s"
  shows "\<exists>s1 s0. reset s = Some ([AckReset], s1) \<and> reset s1 = Some ([AckReset], s1) \<and>
           init (width s) (height s) = Some s0 \<and>
           s1\<lparr>flood_values := flood_values s0\<rparr> = s0 \<and>
           flood_values s1 = flood_values s \<and>
           (\<forall>n sens. \<not> was_reset sens \<longrightarrow> cycle ft n sens s1 = cycle ft n sens s0)"
proof -
  let ?w = "width s" and ?h = "height s"
  from reset_well_formed[OF assms] obtain s1 where
    r: "reset s = Some ([AckReset], s1)" and wf1: "well_formed s1"
    and d: "width s1 = ?w" "height s1 = ?h" by blast
  let ?s0 = "s1\<lparr>flood_values := new_grid ?w ?h 0\<rparr>"
  from reset_idempotent[OF r] have r1: "reset s1 = Some ([AckReset], s1)" .
  from reset_fresh_but_flood_values[OF r] have i: "init ?w ?h = Some ?s0" .
  from r have fv: "flood_values s1 = flood_values s"
    by (auto simp: reset_def split: option.splits)
  have wf0: "well_formed ?s0" using wf1 d by (simp add: well_formed_def shape_new_grid)
  have sh: "shape (width ?s0) (height ?s0) (flood_values s1)"
    using wf1 by (simp add: well_formed_def)
  have "cycle ft n sens s1 = cycle ft n sens ?s0" if "\<not> was_reset sens" for n sens
    using cycle_forgets[OF wf0 sh that, of ft n] by simp
  with r r1 i fv show ?thesis
    by (intro exI[of _ s1] exI[of _ ?s0]) simp
qed

lemma reset_at_goal_3x3_result: "reset at_goal_3x3 = Some ([AckReset], flooded_3x3)"
  by code_simp

theorem reset_idempotent_and_fresh_witness:
  "well_formed at_goal_3x3 \<and> reset at_goal_3x3 = Some ([AckReset], flooded_3x3) \<and>
   reset flooded_3x3 = Some ([AckReset], flooded_3x3) \<and> init 3 3 = Some fresh_3x3 \<and>
   flooded_3x3\<lparr>flood_values := flood_values fresh_3x3\<rparr> = fresh_3x3 \<and>
   flood_values flooded_3x3 = flood_values at_goal_3x3 \<and>
   cycle exact_tests 1 at_start flooded_3x3 = cycle exact_tests 1 at_start fresh_3x3"
proof -
  from reset_idempotent_and_fresh[OF at_goal_3x3_well_formed, of exact_tests]
  obtain s1 s0 where
    a: "reset at_goal_3x3 = Some ([AckReset], s1)" and b: "reset s1 = Some ([AckReset], s1)"
    and c: "init (width at_goal_3x3) (height at_goal_3x3) = Some s0"
    and e: "s1\<lparr>flood_values := flood_values s0\<rparr> = s0"
    and f: "flood_values s1 = flood_values at_goal_3x3"
    and g: "\<And>n sens. \<not> was_reset sens \<Longrightarrow> cycle exact_tests n sens s1 = cycle exact_tests n sens s0"
    by blast
  from a reset_at_goal_3x3_result have s1: "s1 = flooded_3x3" by simp
  have "width at_goal_3x3 = 3" "height at_goal_3x3 = 3"
    by (simp_all add: at_goal_3x3_def flooded_3x3_def fresh_3x3_def)
  with c init_3x3 have s0: "s0 = fresh_3x3" by simp
  have "\<not> was_reset at_start" by (simp add: at_start_def)
  from g[OF this, of 1] a b e f init_3x3 at_goal_3x3_well_formed show ?thesis
    by (simp add: s1 s0)
qed

end
